theory Spec2Isabelle
  imports Complex_Main
begin

section \<open>The torch operator registry (torch\_op\_registry.py)\<close>

text \<open>
  A conversion function is a Python callable; the registry reads its \<open>__name__\<close> and
  stores the object. A callable is modelled by its name and a token standing for the
  object's identity.
\<close>

record func =
  f_name :: string
  f_id :: nat

text \<open>\<open>TorchOpsRegistry\<close>: one attribute, the dict \<open>name_to_func_mapping\<close>.\<close>

record TorchOpsRegistry =
  name_to_func_mapping :: "string \<rightharpoonup> func"

definition init_registry :: TorchOpsRegistry where
  "init_registry = \<lparr>name_to_func_mapping = Map.empty\<rparr>"

text \<open>
  The two exceptions of \<open>register_func\<close>: \<open>raise Exception(...)\<close> for a name ending in an
  underscore, \<open>raise ValueError(...)\<close> for a name already registered. Each message is built
  from the offending name, which the model keeps.
\<close>

datatype reg_error = Exception string | ValueError string

text \<open>Python's \<open>str.startswith\<close> and \<open>str.endswith\<close>.\<close>

definition startswith :: "string \<Rightarrow> string \<Rightarrow> bool" where
  "startswith s p = (take (length p) s = p)"

definition endswith :: "string \<Rightarrow> string \<Rightarrow> bool" where
  "endswith s p = (length p \<le> length s \<and> drop (length s - length p) s = p)"

text \<open>
  \<open>get_func\<close>: the key is sanitised (\<open>op_lookup[2:-2]\<close> for a name wrapped in double
  underscores, else \<open>op_lookup[:-1]\<close> for a name ending in an underscore), then looked up
  with \<open>dict.get(key, None)\<close>.
\<close>

definition get_func :: "TorchOpsRegistry \<Rightarrow> string \<Rightarrow> func option" where
  "get_func self op_lookup =
     (let op_lookup' =
        (if startswith op_lookup ''__'' \<and> endswith op_lookup ''__''
         then drop 2 (take (length op_lookup - 2) op_lookup)
         else if endswith op_lookup ''_''
         then take (length op_lookup - 1) op_lookup
         else op_lookup)
      in name_to_func_mapping self op_lookup')"

definition set_func_by_name :: "TorchOpsRegistry \<Rightarrow> func \<Rightarrow> string \<Rightarrow> TorchOpsRegistry" where
  "set_func_by_name self fn name =
     self\<lparr>name_to_func_mapping := (name_to_func_mapping self)(name \<mapsto> fn)\<rparr>"

text \<open>
  The loop \<open>for name in all_f_names\<close> of \<open>register_func\<close>. The registry is mutated in place,
  so the result carries the registry as it stands when the call returns or raises.
\<close>

fun register_names ::
  "TorchOpsRegistry \<Rightarrow> func \<Rightarrow> bool \<Rightarrow> string list \<Rightarrow> (reg_error + unit) \<times> TorchOpsRegistry" where
  "register_names self fn override [] = (Inr (), self)"
| "register_names self fn override (name # names) =
     (if endswith name ''_'' then (Inl (Exception name), self)
      else if \<not> override \<and> name \<in> dom (name_to_func_mapping self)
      then (Inl (ValueError name), self)
      else register_names (set_func_by_name self fn name) fn override names)"

definition all_f_names :: "func \<Rightarrow> string list option \<Rightarrow> string list" where
  "all_f_names fn torch_alias =
     [f_name fn] @ (case torch_alias of None \<Rightarrow> [] | Some aliases \<Rightarrow> aliases)"

definition register_func ::
  "TorchOpsRegistry \<Rightarrow> func \<Rightarrow> string list option \<Rightarrow> bool \<Rightarrow> (reg_error + unit) \<times> TorchOpsRegistry" where
  "register_func self fn torch_alias override =
     register_names self fn override (all_f_names fn torch_alias)"

text \<open>
  The target names of a registration as the specification names them: the function's own
  name and every alias.
\<close>

definition target_names :: "func \<Rightarrow> string list option \<Rightarrow> string set" where
  "target_names fn torch_alias =
     insert (f_name fn) (case torch_alias of None \<Rightarrow> {} | Some aliases \<Rightarrow> set aliases)"

definition is_inplace_op :: "string \<Rightarrow> bool" where
  "is_inplace_op op_lookup =
     (\<not> (startswith op_lookup ''__'' \<and> endswith op_lookup ''__'') \<and> endswith op_lookup ''_'')"

text \<open>The deprecated raw accessors: \<open>__contains__\<close> is \<open>key in self.name_to_func_mapping\<close>.\<close>

definition contains :: "TorchOpsRegistry \<Rightarrow> string \<Rightarrow> bool" where
  "contains self key = (key \<in> dom (name_to_func_mapping self))"

definition setitem :: "TorchOpsRegistry \<Rightarrow> string \<Rightarrow> func \<Rightarrow> TorchOpsRegistry" where
  "setitem self key v = self\<lparr>name_to_func_mapping := (name_to_func_mapping self)(key \<mapsto> v)\<rparr>"

text \<open>
  \<open>is_torch_fx_node_supported\<close>, the support check that queries the registry. A node is modelled by
  its \<open>op\<close> string and the name of its target (the target itself when it is a string, its
  \<open>__name__\<close> otherwise); the global \<open>_TORCH_OPS_REGISTRY\<close> is the argument \<open>registry\<close>. The
  warning that is logged is not modelled; a failing \<open>assert\<close> is the error.
\<close>

record torch_fx_node =
  node_op :: string
  node_target_name :: string

datatype fx_error = AssertionError

text \<open>\<open>str.lower\<close> on the letters A to Z; other characters are kept.\<close>

definition lower_char :: "char \<Rightarrow> char" where
  "lower_char c =
     (case map_of (zip ''ABCDEFGHIJKLMNOPQRSTUVWXYZ'' ''abcdefghijklmnopqrstuvwxyz'') c of
        None \<Rightarrow> c
      | Some l \<Rightarrow> l)"

definition lower :: "string \<Rightarrow> string" where
  "lower s = map lower_char s"

definition is_torch_fx_node_supported :: "TorchOpsRegistry \<Rightarrow> torch_fx_node \<Rightarrow> fx_error + bool" where
  "is_torch_fx_node_supported registry torch_fx_node =
     (if node_op torch_fx_node \<noteq> ''call_function'' then Inr False
      else
        (let torch_fx_node_target_name = lower (node_target_name torch_fx_node) in
         if endswith torch_fx_node_target_name ''_'' then Inl AssertionError
         else
           (let ATEN_NODE_PREFIX = ''aten.'';
                torch_fx_node_target_name =
                  (if startswith torch_fx_node_target_name ATEN_NODE_PREFIX
                   then drop (length ATEN_NODE_PREFIX) torch_fx_node_target_name
                   else torch_fx_node_target_name)
            in Inr (contains registry torch_fx_node_target_name))))"

text \<open>
  The invariant that \<open>register_func\<close> maintains: no key ends in an underscore.
\<close>

definition no_inplace_keys :: "TorchOpsRegistry \<Rightarrow> bool" where
  "no_inplace_keys self = (\<forall>k \<in> dom (name_to_func_mapping self). \<not> endswith k ''_'')"

text \<open>Example values: a conversion function and a registry binding \<open>add\<close> and \<open>and\<close>.\<close>

definition example_func :: "string \<Rightarrow> nat \<Rightarrow> func" where
  "example_func nm k = \<lparr>f_name = nm, f_id = k\<rparr>"

definition example_registry :: TorchOpsRegistry where
  "example_registry =
     \<lparr>name_to_func_mapping = [''add'' \<mapsto> example_func ''add'' 1, ''and'' \<mapsto> example_func ''and'' 2]\<rparr>"

definition example_node :: "string \<Rightarrow> torch_fx_node" where
  "example_node t = \<lparr>node_op = ''call_function'', node_target_name = t\<rparr>"


section \<open>The graph model consumed by the elimination pass\<close>

text \<open>
  A symbolic type is a shape with an element kind. A constant value is the flat list of
  the elements of the array (a scalar is a list of one element); the pass only compares
  the elements with a number.
\<close>

datatype sym_type = Tensor (shape: "nat list") (dtype: string)

text \<open>
  A \<open>Var\<close>: its name, its symbolic type, its compile-time value (\<open>None\<close> when not constant)
  and \<open>var_op\<close>, the back-reference \<open>Var.op\<close> to its producer, kept as the producer's name
  (\<open>None\<close> for a graph input). Python compares \<open>Var\<close> objects by identity; variables of a
  program have distinct names, so the model compares the records.
\<close>

record var =
  var_name :: string
  sym_type :: sym_type
  val :: "rat list option"
  var_op :: "string option"

text \<open>
  An \<open>Operation\<close> has a name (its identity in the program), a type tag, named inputs,
  outputs and nested blocks; a \<open>Block\<close> is a list of operations with declared outputs.
  The back-reference \<open>op.enclosing_block\<close> is not stored: the functions below receive the
  enclosing block as an argument, as the pass passes it.
\<close>

datatype op =
  Op (op_name: string) (op_type: string) (inputs: "(string \<times> var) list")
     (outputs: "var list") (blocks: "block list")
and block =
  Block (operations: "op list") (block_outputs: "var list")

record program =
  prog_functions :: "(string \<times> block) list"

text \<open>
  The exceptions the pass can raise: \<open>op.outputs[0]\<close> on an empty list, an input attribute
  that the operation does not have, iterating or measuring a value that is \<open>None\<close>, a table
  lookup that misses, and the truth value of an array that is not a single element.
\<close>

datatype py_error = IndexError | AttributeError | TypeError | KeyError | AmbiguousTruthValue

definition bind_result :: "py_error + 'a \<Rightarrow> ('a \<Rightarrow> py_error + 'b) \<Rightarrow> py_error + 'b" where
  "bind_result m f = (case m of Inl e \<Rightarrow> Inl e | Inr v \<Rightarrow> f v)"

text \<open>\<open>op.x\<close>, \<open>op.y\<close>, \<open>op.perm\<close>, ...: the input of that name, or \<open>AttributeError\<close>.\<close>

definition get_input :: "op \<Rightarrow> string \<Rightarrow> py_error + var" where
  "get_input op k = (case map_of (inputs op) k of None \<Rightarrow> Inl AttributeError | Some v \<Rightarrow> Inr v)"

text \<open>\<open>op.outputs[0]\<close>.\<close>

definition first_output :: "op \<Rightarrow> py_error + var" where
  "first_output op = (case outputs op of [] \<Rightarrow> Inl IndexError | v # _ \<Rightarrow> Inr v)"

text \<open>The total number of operations of a block, nested blocks included.\<close>

fun num_ops_op :: "op \<Rightarrow> nat" and num_ops :: "block \<Rightarrow> nat" where
  "num_ops_op (Op n t ins outs bs) = Suc (sum_list (map num_ops bs))"
| "num_ops (Block ops outs) = sum_list (map num_ops_op ops)"

subsection \<open>The two mutation primitives of a block\<close>

text \<open>
  Modelled from the spec: the graph model (the classes \<open>Block\<close>, \<open>Operation\<close>, \<open>Var\<close> with
  \<open>replace_uses_of_var_after_op\<close> and \<open>remove_ops\<close>) is not among the sources; the pass calls
  it. The specification gives its contract: "given an anchor operation, an old value, and a
  new value, replace every use of old value that occurs at or after the anchor in program
  order with new value; uses strictly before the anchor are left untouched". A use is an
  input of a consuming operation, in the block or in a block nested in one of its
  operations. An anchor that is \<open>None\<close> (a graph input) or that is not an operation of the
  block has no operation of the block before it, so every use in the block is replaced.
\<close>

fun replace_var_in_op :: "var \<Rightarrow> var \<Rightarrow> op \<Rightarrow> op"
  and replace_var_in_block :: "var \<Rightarrow> var \<Rightarrow> block \<Rightarrow> block" where
  "replace_var_in_op old_var new_var (Op n t ins outs bs) =
     Op n t (map (\<lambda>(k, v). (k, if v = old_var then new_var else v)) ins) outs
        (map (replace_var_in_block old_var new_var) bs)"
| "replace_var_in_block old_var new_var (Block ops outs) =
     Block (map (replace_var_in_op old_var new_var) ops) outs"

definition ops_before_anchor :: "op list \<Rightarrow> string option \<Rightarrow> op list" where
  "ops_before_anchor ops anchor_op =
     (case anchor_op of
        None \<Rightarrow> []
      | Some a \<Rightarrow> if a \<in> op_name ` set ops then takeWhile (\<lambda>p. op_name p \<noteq> a) ops else [])"

definition replace_uses_of_var_after_op :: "block \<Rightarrow> string option \<Rightarrow> var \<Rightarrow> var \<Rightarrow> block" where
  "replace_uses_of_var_after_op block anchor_op old_var new_var =
     (let before = ops_before_anchor (operations block) anchor_op
      in Block (before @ map (replace_var_in_op old_var new_var)
                            (drop (length before) (operations block)))
               (block_outputs block))"

text \<open>
  Modelled from the spec: \<open>remove_ops\<close> ("remove a set of operations") deletes the listed
  operations, found by name, from the block's operation list. The specification calls the
  deletion of an operation that still has uses unreachable; the model has no such failure.
\<close>

definition remove_ops :: "block \<Rightarrow> op list \<Rightarrow> block" where
  "remove_ops block ops =
     Block (filter (\<lambda>p. op_name p \<notin> op_name ` set ops) (operations block))
           (block_outputs block)"


section \<open>The elimination pass (noop\_elimination.py)\<close>

text \<open>\<open>np.all(v == c)\<close> on the elements of a constant.\<close>

definition np_all_eq :: "rat list \<Rightarrow> rat \<Rightarrow> bool" where
  "np_all_eq v c = list_all (\<lambda>e. e = c) v"

text \<open>
  The test \<open>x is not None and op.x.val is not None and np.all(op.x.val == x)\<close> of
  \<open>_remove_elementwise_binary\<close>, for the input named \<open>k\<close>: the input is read only when the
  identity \<open>c\<close> is given.
\<close>

definition const_equals :: "op \<Rightarrow> string \<Rightarrow> rat option \<Rightarrow> py_error + bool" where
  "const_equals op k c =
     (case c of
        None \<Rightarrow> Inr False
      | Some c' \<Rightarrow>
          bind_result (get_input op k) (\<lambda>v.
            Inr (case val v of None \<Rightarrow> False | Some a \<Rightarrow> np_all_eq a c')))"

text \<open>
  The common tail of the four strategies: rewire the uses of the output to the surviving
  input after the input's producer, remove the operation, return \<open>True\<close>.
\<close>

definition redirect_and_remove :: "op \<Rightarrow> block \<Rightarrow> var \<Rightarrow> py_error + bool \<times> block" where
  "redirect_and_remove op block input_var =
     (let input_op = var_op input_var in
      bind_result (first_output op) (\<lambda>old_var.
        Inr (True,
             remove_ops (replace_uses_of_var_after_op block input_op old_var input_var) [op])))"

definition remove_elementwise_binary ::
  "op \<Rightarrow> block \<Rightarrow> rat option \<Rightarrow> rat option \<Rightarrow> py_error + bool \<times> block" where
  "remove_elementwise_binary op block x y =
     bind_result (const_equals op ''x'' x) (\<lambda>x_is_identity.
     bind_result
       (if x_is_identity then bind_result (get_input op ''y'') (\<lambda>v. Inr (Some v))
        else bind_result (const_equals op ''y'' y) (\<lambda>y_is_identity.
               if y_is_identity then bind_result (get_input op ''x'') (\<lambda>v. Inr (Some v))
               else Inr None))
       (\<lambda>selected.
          case selected of
            None \<Rightarrow> Inr (False, block)
          | Some input_var \<Rightarrow>
              bind_result (first_output op) (\<lambda>out.
                if sym_type input_var \<noteq> sym_type out then Inr (False, block)
                else redirect_and_remove op block input_var)))"

definition remove_elementwise :: "op \<Rightarrow> block \<Rightarrow> py_error + bool \<times> block" where
  "remove_elementwise op block =
     (if op_type op \<in> {''add''} then remove_elementwise_binary op block (Some 0) (Some 0)
      else if op_type op \<in> {''mul''} then remove_elementwise_binary op block (Some 1) (Some 1)
      else if op_type op \<in> {''floor_div'', ''pow'', ''real_div''}
      then remove_elementwise_binary op block None (Some 1)
      else if op_type op \<in> {''sub''} then remove_elementwise_binary op block None (Some 0)
      else Inr (False, block))"

definition remove_same_shape :: "op \<Rightarrow> block \<Rightarrow> py_error + bool \<times> block" where
  "remove_same_shape op block =
     bind_result (get_input op ''x'') (\<lambda>x.
     bind_result (first_output op) (\<lambda>out.
       if sym_type x \<noteq> sym_type out then Inr (False, block)
       else redirect_and_remove op block x))"

text \<open>
  \<open>v != c\<close> used as a condition, as in \<open>op.alpha.val != 1\<close>: \<open>None != c\<close> is true; a scalar or
  a one-element array compares its element; the truth value of any other array raises.
\<close>

definition val_differs :: "rat list option \<Rightarrow> rat \<Rightarrow> py_error + bool" where
  "val_differs v c =
     (case v of
        None \<Rightarrow> Inr True
      | Some [a] \<Rightarrow> Inr (a \<noteq> c)
      | Some _ \<Rightarrow> Inl AmbiguousTruthValue)"

definition remove_linear :: "op \<Rightarrow> block \<Rightarrow> py_error + bool \<times> block" where
  "remove_linear op block =
     bind_result (get_input op ''alpha'') (\<lambda>alpha.
     bind_result (val_differs (val alpha) 1) (\<lambda>alpha_differs.
       if alpha_differs then Inr (False, block)
       else
         bind_result (get_input op ''beta'') (\<lambda>beta.
         bind_result (val_differs (val beta) 0) (\<lambda>beta_differs.
           if beta_differs then Inr (False, block)
           else bind_result (get_input op ''x'') (\<lambda>x. redirect_and_remove op block x)))))"

text \<open>
  \<open>perm = [p if p >= 0 else p + len(op.perm.val) for p in op.perm.val]\<close>, compared with
  \<open>np.sort(perm)\<close>.
\<close>

definition normalize_perm :: "rat list \<Rightarrow> rat list" where
  "normalize_perm pv = map (\<lambda>p. if p \<ge> 0 then p else p + of_nat (length pv)) pv"

definition remove_transpose :: "op \<Rightarrow> block \<Rightarrow> py_error + bool \<times> block" where
  "remove_transpose op block =
     bind_result (get_input op ''perm'') (\<lambda>perm_var.
       case val perm_var of
         None \<Rightarrow> Inl TypeError
       | Some pv \<Rightarrow>
           (let perm = normalize_perm pv; sorted_perm = sort perm in
            if perm \<noteq> sorted_perm then Inr (False, block)
            else bind_result (get_input op ''x'') (\<lambda>x. redirect_and_remove op block x)))"

definition SUPPORTED_OPS :: "string list" where
  "SUPPORTED_OPS =
     [''add'', ''mul'', ''floor_div'', ''pow'', ''real_div'', ''sub'', ''reshape'', ''split'',
      ''slice_by_index'', ''slice_by_size'', ''pad'', ''tile'', ''transpose'',
      ''upsample_nearest_neighbor'', ''upsample_bilinear'', ''resize_bilinear'', ''crop'',
      ''linear_activation'']"

definition op_to_removal_fn :: "(string \<times> (op \<Rightarrow> block \<Rightarrow> py_error + bool \<times> block)) list" where
  "op_to_removal_fn =
     [(''add'', remove_elementwise),
      (''mul'', remove_elementwise),
      (''floor_div'', remove_elementwise),
      (''pow'', remove_elementwise),
      (''real_div'', remove_elementwise),
      (''sub'', remove_elementwise),
      (''reshape'', remove_same_shape),
      (''split'', remove_same_shape),
      (''slice_by_index'', remove_same_shape),
      (''slice_by_size'', remove_same_shape),
      (''pad'', remove_same_shape),
      (''tile'', remove_same_shape),
      (''transpose'', remove_transpose),
      (''upsample_nearest_neighbor'', remove_same_shape),
      (''upsample_bilinear'', remove_same_shape),
      (''resize_bilinear'', remove_same_shape),
      (''crop'', remove_same_shape),
      (''linear_activation'', remove_linear)]"

text \<open>\<open>_match_pattern(op)\<close>, with \<open>op.enclosing_block\<close> passed as \<open>block\<close>.\<close>

definition match_pattern ::
  "op \<Rightarrow> block \<Rightarrow> py_error + (op \<Rightarrow> block \<Rightarrow> py_error + bool \<times> block) option" where
  "match_pattern op block =
     bind_result (first_output op) (\<lambda>out.
       if out \<in> set (block_outputs block) then Inr None
       else if op_type op \<in> set SUPPORTED_OPS then
         (if length (outputs op) \<noteq> 1 then Inr None
          else case map_of op_to_removal_fn (op_type op) of
                 None \<Rightarrow> Inl KeyError
               | Some remove_fn \<Rightarrow> Inr (Some remove_fn))
       else Inr None)"

text \<open>
  The pass object: \<open>__init__\<close> sets \<open>ops_to_skip\<close> to the empty set and \<open>set_ops_to_skip\<close> does
  nothing. Operations are in the set by identity, here by name.
\<close>

record noop_elimination =
  ops_to_skip :: "string set"

definition init_pass :: noop_elimination where
  "init_pass = \<lparr>ops_to_skip = {}\<rparr>"

definition set_ops_to_skip :: "noop_elimination \<Rightarrow> program \<Rightarrow> noop_elimination" where
  "set_ops_to_skip self prog = self"

text \<open>
  \<open>for b in op.blocks: ...\<close> with the loop body \<open>conv\<close>: each nested block is replaced by the
  block that the body leaves; an exception ends the loop.
\<close>

fun for_blocks :: "(block \<Rightarrow> py_error + block) \<Rightarrow> block list \<Rightarrow> py_error + block list" where
  "for_blocks conv [] = Inr []"
| "for_blocks conv (b # bs) =
     (case conv b of
        Inl e \<Rightarrow> Inl e
      | Inr b' \<Rightarrow> (case for_blocks conv bs of Inl e \<Rightarrow> Inl e | Inr bs' \<Rightarrow> Inr (b' # bs')))"

text \<open>The operation \<open>op\<close> once its nested blocks have been rewritten in place.\<close>

definition set_blocks :: "op \<Rightarrow> block list \<Rightarrow> op" where
  "set_blocks op bs = Op (op_name op) (op_type op) (inputs op) (outputs op) bs"

text \<open>
  The loop \<open>for op in list(block.operations)\<close> of \<open>_noop_elimination_block\<close>. The operations
  already visited are \<open>done\<close> (their nested blocks rewritten in place), those of the
  snapshot still to visit are \<open>op # rest\<close>; the block as it stands is
  \<open>Block (done @ op # rest) outs\<close>. \<open>conv\<close> is the inner loop
  \<open>while block_changed: block_changed = self._noop_elimination_block(b)\<close>. The result is
  the returned flag and the block as the call leaves it. A strategy that declines returns
  the block as it received it, so the scan goes on from the same block.
\<close>

fun scan_ops ::
  "(block \<Rightarrow> py_error + block) \<Rightarrow> noop_elimination \<Rightarrow> var list \<Rightarrow> op list \<Rightarrow> op list \<Rightarrow>
     py_error + bool \<times> block" where
  "scan_ops conv self outs done [] = Inr (False, Block done outs)"
| "scan_ops conv self outs done (op # rest) =
     (case for_blocks conv (blocks op) of
        Inl e \<Rightarrow> Inl e
      | Inr bs' \<Rightarrow>
          (let op' = set_blocks op bs';
               block = Block (done @ op' # rest) outs
           in if length (blocks op') > 0 then scan_ops conv self outs (done @ [op']) rest
              else
                (case match_pattern op' block of
                   Inl e \<Rightarrow> Inl e
                 | Inr None \<Rightarrow> scan_ops conv self outs (done @ [op']) rest
                 | Inr (Some remove_fn) \<Rightarrow>
                     if op_name op' \<notin> ops_to_skip self then
                       (case remove_fn op' block of
                          Inl e \<Rightarrow> Inl e
                        | Inr (status, block') \<Rightarrow>
                            if status then Inr (status, block')
                            else scan_ops conv self outs (done @ [op']) rest)
                     else scan_ops conv self outs (done @ [op']) rest)))"

definition noop_elimination_block_body ::
  "(block \<Rightarrow> py_error + block) \<Rightarrow> noop_elimination \<Rightarrow> block \<Rightarrow> py_error + bool \<times> block" where
  "noop_elimination_block_body conv self block =
     scan_ops conv self (block_outputs block) [] (operations block)"


subsection \<open>The fixed-point loop\<close>

text \<open>
  The loop body is applied to the nested blocks of the operations of the block only; the
  two rules below tell this to the function package.
\<close>

lemma for_blocks_cong [fundef_cong]:
  "bs = bs' \<Longrightarrow> (\<And>b. b \<in> set bs' \<Longrightarrow> conv b = conv' b) \<Longrightarrow>
     for_blocks conv bs = for_blocks conv' bs'"
  by (induction bs arbitrary: bs') (auto split: sum.splits)

lemma scan_ops_same:
  "(\<And>p b. p \<in> set ops \<Longrightarrow> b \<in> set (blocks p) \<Longrightarrow> conv b = conv' b) \<Longrightarrow>
     scan_ops conv self outs done ops = scan_ops conv' self outs done ops"
proof (induction ops arbitrary: "done")
  case Nil
  then show ?case by simp
next
  case (Cons p ps)
  have fb: "for_blocks conv (blocks p) = for_blocks conv' (blocks p)"
    by (rule for_blocks_cong [OF refl], rule Cons.prems [of p]) simp_all
  have rec: "\<And>d. scan_ops conv self outs d ps = scan_ops conv' self outs d ps"
    by (rule Cons.IH, rule Cons.prems) simp_all
  show ?case
    by (simp add: fb rec Let_def split: sum.splits option.splits)
qed

lemma scan_ops_cong [fundef_cong]:
  "self = self' \<Longrightarrow> outs = outs' \<Longrightarrow> done = done' \<Longrightarrow> ops = ops' \<Longrightarrow>
   (\<And>p b. p \<in> set ops' \<Longrightarrow> b \<in> set (blocks p) \<Longrightarrow> conv b = conv' b) \<Longrightarrow>
     scan_ops conv self outs done ops = scan_ops conv' self' outs' done' ops'"
  using scan_ops_same [of ops' conv conv' self' outs' done'] by simp

lemma noop_elimination_block_body_cong [fundef_cong]:
  "self = self' \<Longrightarrow> block = block' \<Longrightarrow>
   (\<And>p b. p \<in> set (operations block') \<Longrightarrow> b \<in> set (blocks p) \<Longrightarrow> conv b = conv' b) \<Longrightarrow>
     noop_elimination_block_body conv self block = noop_elimination_block_body conv' self' block'"
  unfolding noop_elimination_block_body_def by (rule scan_ops_cong) auto

text \<open>
  The loop \<open>block_changed = True; while block_changed: block_changed =
  self._noop_elimination_block(block)\<close>, which \<open>apply\<close> runs on every function and
  \<open>_noop_elimination_block\<close> on every nested block. Its termination is proved below, once
  the operation count is known to decrease.
\<close>

function noop_elimination_converge :: "noop_elimination \<Rightarrow> block \<Rightarrow> py_error + block" where
  "noop_elimination_converge self block =
     (case noop_elimination_block_body (noop_elimination_converge self) self block of
        Inl e \<Rightarrow> Inl e
      | Inr (block_changed, block') \<Rightarrow>
          if block_changed then noop_elimination_converge self block' else Inr block')"
  by pat_completeness auto

subsection \<open>The operation count under the primitives\<close>

lemma num_ops_replace_var:
  "num_ops_op (replace_var_in_op old_var new_var p) = num_ops_op p"
  "num_ops (replace_var_in_block old_var new_var b) = num_ops b"
proof (induction p and b)
  case (Op n t ins outs bs)
  then have eq: "map (\<lambda>b. num_ops (replace_var_in_block old_var new_var b)) bs = map num_ops bs"
    by (intro map_cong) simp_all
  show ?case by (simp add: comp_def eq)
next
  case (Block ops outs)
  then have eq: "map (\<lambda>p. num_ops_op (replace_var_in_op old_var new_var p)) ops = map num_ops_op ops"
    by (intro map_cong) simp_all
  show ?case by (simp add: comp_def eq)
qed

lemma num_ops_Block: "num_ops b = sum_list (map num_ops_op (operations b))"
  by (cases b) simp

lemma ops_before_anchor_split:
  "ops_before_anchor ops anchor_op @ drop (length (ops_before_anchor ops anchor_op)) ops = ops"
  by (simp add: ops_before_anchor_def dropWhile_eq_drop [symmetric] split: option.splits)

lemma num_ops_replace_uses:
  "num_ops (replace_uses_of_var_after_op block anchor_op old_var new_var) = num_ops block"
proof -
  let ?before = "ops_before_anchor (operations block) anchor_op"
  let ?after = "drop (length ?before) (operations block)"
  have "num_ops (replace_uses_of_var_after_op block anchor_op old_var new_var) =
        sum_list (map num_ops_op ?before) + sum_list (map num_ops_op ?after)"
    by (simp add: replace_uses_of_var_after_op_def Let_def comp_def num_ops_replace_var)
  also have "\<dots> = sum_list (map num_ops_op (?before @ ?after))"
    by simp
  also have "\<dots> = num_ops block"
    unfolding ops_before_anchor_split by (simp add: num_ops_Block)
  finally show ?thesis .
qed

lemma num_ops_op_pos: "0 < num_ops_op p"
  by (cases p) simp

lemma sum_list_filter_le:
  "sum_list (map (f :: 'a \<Rightarrow> nat) (filter P xs)) \<le> sum_list (map f xs)"
  by (induction xs) auto

lemma sum_list_filter_less:
  "x \<in> set xs \<Longrightarrow> \<not> P x \<Longrightarrow> 0 < f x \<Longrightarrow>
     sum_list (map (f :: 'a \<Rightarrow> nat) (filter P xs)) < sum_list (map f xs)"
proof (induction xs)
  case Nil
  then show ?case by simp
next
  case (Cons a xs)
  show ?case
  proof (cases "P a")
    case True
    with Cons show ?thesis by auto
  next
    case False
    have "sum_list (map f (filter P xs)) \<le> sum_list (map f xs)" by (rule sum_list_filter_le)
    moreover have "0 < f a \<or> x \<in> set xs" using Cons.prems False by auto
    ultimately show ?thesis using False Cons by (cases "x \<in> set xs") auto
  qed
qed

lemma num_ops_remove_ops:
  "p \<in> set (operations block) \<Longrightarrow> op_name p = op_name q \<Longrightarrow>
     num_ops (remove_ops block [q]) < num_ops block"
  unfolding remove_ops_def num_ops_Block
  by (simp, rule sum_list_filter_less [of p]) (simp_all add: num_ops_op_pos)

subsection \<open>The shape of a removal strategy\<close>

text \<open>
  Whether a strategy raises, declines or rewrites is decided by the operation alone; when
  it rewrites, the new block is the block rewired and with the operation removed.
\<close>

definition rewired :: "block \<Rightarrow> op \<Rightarrow> var \<Rightarrow> var \<Rightarrow> block" where
  "rewired block p input_var old_var =
     remove_ops (replace_uses_of_var_after_op block (var_op input_var) old_var input_var) [p]"

definition uniform :: "(op \<Rightarrow> block \<Rightarrow> py_error + bool \<times> block) \<Rightarrow> bool" where
  "uniform f = (\<forall>p b.
     (\<forall>e. f p b = Inl e \<longrightarrow> (\<forall>b2. f p b2 = Inl e)) \<and>
     (\<forall>b'. f p b = Inr (False, b') \<longrightarrow> b' = b \<and> (\<forall>b2. f p b2 = Inr (False, b2))) \<and>
     (\<forall>b'. f p b = Inr (True, b') \<longrightarrow>
        (\<exists>iv ov. \<forall>b2. f p b2 = Inr (True, rewired b2 p iv ov))))"

lemma redirect_and_remove_eq:
  "redirect_and_remove p b iv =
     (case first_output p of Inl e \<Rightarrow> Inl e | Inr ov \<Rightarrow> Inr (True, rewired b p iv ov))"
  by (simp add: redirect_and_remove_def rewired_def bind_result_def Let_def split: sum.splits)

lemma uniform_remove_same_shape: "uniform remove_same_shape"
  unfolding uniform_def remove_same_shape_def redirect_and_remove_eq bind_result_def
  by (auto split: sum.splits if_splits)

lemma uniform_remove_linear: "uniform remove_linear"
  unfolding uniform_def remove_linear_def redirect_and_remove_eq bind_result_def
  by (auto split: sum.splits if_splits)

lemma uniform_remove_transpose: "uniform remove_transpose"
  unfolding uniform_def remove_transpose_def redirect_and_remove_eq bind_result_def Let_def
  by (auto split: sum.splits if_splits option.splits)

lemma uniform_remove_elementwise_binary: "uniform (\<lambda>p b. remove_elementwise_binary p b x y)"
  unfolding uniform_def remove_elementwise_binary_def redirect_and_remove_eq bind_result_def
  by (auto split: sum.splits if_splits option.splits)

lemma uniform_decline: "uniform (\<lambda>p b. Inr (False, b))"
  unfolding uniform_def by simp

lemma uniform_pointwise:
  assumes "\<And>p. \<exists>g. uniform g \<and> (\<forall>b. f p b = g p b)"
  shows "uniform f"
  unfolding uniform_def
proof (intro allI)
  fix p b
  from assms [of p] obtain g where "uniform g \<and> (\<forall>b. f p b = g p b)" ..
  then have g: "uniform g" and fg: "\<And>b. f p b = g p b" by simp_all
  note u = g [unfolded uniform_def, THEN spec, THEN spec, of p b]
  show
    "(\<forall>e. f p b = Inl e \<longrightarrow> (\<forall>b2. f p b2 = Inl e)) \<and>
     (\<forall>b'. f p b = Inr (False, b') \<longrightarrow> b' = b \<and> (\<forall>b2. f p b2 = Inr (False, b2))) \<and>
     (\<forall>b'. f p b = Inr (True, b') \<longrightarrow>
        (\<exists>iv ov. \<forall>b2. f p b2 = Inr (True, rewired b2 p iv ov)))"
    unfolding fg by (rule u)
qed

lemma uniform_remove_elementwise: "uniform remove_elementwise"
proof (rule uniform_pointwise)
  fix p
  let ?bin = "\<lambda>x y. (\<lambda>p b. remove_elementwise_binary p b x y)"
  consider (add) "op_type p = ''add''" | (mul) "op_type p = ''mul''"
    | (div) "op_type p \<in> {''floor_div'', ''pow'', ''real_div''}" | (sub) "op_type p = ''sub''"
    | (other) "op_type p \<notin> {''add'', ''mul'', ''floor_div'', ''pow'', ''real_div'', ''sub''}"
    by blast
  then show "\<exists>g. uniform g \<and> (\<forall>b. remove_elementwise p b = g p b)"
  proof cases
    case add
    then show ?thesis
      by (intro exI [of _ "?bin (Some 0) (Some 0)"])
         (simp add: remove_elementwise_def uniform_remove_elementwise_binary)
  next
    case mul
    then show ?thesis
      by (intro exI [of _ "?bin (Some 1) (Some 1)"])
         (simp add: remove_elementwise_def uniform_remove_elementwise_binary)
  next
    case div
    then show ?thesis
      by (intro exI [of _ "?bin None (Some 1)"])
         (auto simp: remove_elementwise_def uniform_remove_elementwise_binary)
  next
    case sub
    then show ?thesis
      by (intro exI [of _ "?bin None (Some 0)"])
         (simp add: remove_elementwise_def uniform_remove_elementwise_binary)
  next
    case other
    then show ?thesis
      by (intro exI [of _ "\<lambda>p b. Inr (False, b)"])
         (simp add: remove_elementwise_def uniform_decline)
  qed
qed

lemma set_blocks_sel [simp]:
  "op_name (set_blocks p bs) = op_name p"
  "op_type (set_blocks p bs) = op_type p"
  "inputs (set_blocks p bs) = inputs p"
  "outputs (set_blocks p bs) = outputs p"
  "blocks (set_blocks p bs) = bs"
  by (simp_all add: set_blocks_def)

lemma set_blocks_same [simp]: "set_blocks p (blocks p) = p"
  by (cases p) (simp add: set_blocks_def)

lemma num_ops_op_set_blocks: "num_ops_op (set_blocks p bs) = Suc (sum_list (map num_ops bs))"
  by (simp add: set_blocks_def)

lemma num_ops_op_blocks: "num_ops_op p = Suc (sum_list (map num_ops (blocks p)))"
  by (cases p) simp

lemma uniform_table: "map_of op_to_removal_fn t = Some f \<Longrightarrow> uniform f"
  unfolding op_to_removal_fn_def
  by (auto split: if_splits
      simp: uniform_remove_elementwise uniform_remove_same_shape uniform_remove_linear
        uniform_remove_transpose)

lemma match_pattern_Some:
  "match_pattern p b = Inr (Some f) \<Longrightarrow>
     uniform f \<and> (\<exists>v. outputs p = [v] \<and> v \<notin> set (block_outputs b))"
  unfolding match_pattern_def first_output_def bind_result_def
  by (auto split: list.splits if_splits option.splits dest: uniform_table
      simp: length_Suc_conv)

lemma match_pattern_outs:
  "block_outputs b = block_outputs b2 \<Longrightarrow> match_pattern p b = match_pattern p b2"
  by (simp add: match_pattern_def)

lemma op_name_replace_var [simp]:
  "op_name (replace_var_in_op old_var new_var p) = op_name p"
  "op_type (replace_var_in_op old_var new_var p) = op_type p"
  "outputs (replace_var_in_op old_var new_var p) = outputs p"
  by (cases p; simp)+

lemma operations_replace_uses:
  "operations (replace_uses_of_var_after_op b a old_var new_var) =
     ops_before_anchor (operations b) a @
     map (replace_var_in_op old_var new_var)
       (drop (length (ops_before_anchor (operations b) a)) (operations b))"
  by (simp add: replace_uses_of_var_after_op_def Let_def)

lemma map_op_name_replace_uses:
  "map op_name (operations (replace_uses_of_var_after_op b a old_var new_var)) =
     map op_name (operations b)"
proof -
  let ?before = "ops_before_anchor (operations b) a"
  have "map op_name (operations (replace_uses_of_var_after_op b a old_var new_var)) =
        map op_name (?before @ drop (length ?before) (operations b))"
    by (simp add: operations_replace_uses comp_def)
  then show ?thesis unfolding ops_before_anchor_split .
qed

lemma num_ops_rewired:
  assumes "q \<in> set (operations b)" and "op_name q = op_name p"
  shows "num_ops (rewired b p iv ov) < num_ops b"
proof -
  let ?b1 = "replace_uses_of_var_after_op b (var_op iv) ov iv"
  have "op_name p \<in> set (map op_name (operations ?b1))"
    unfolding map_op_name_replace_uses by (metis assms image_eqI list.set_map)
  then obtain q' where "q' \<in> set (operations ?b1)" "op_name q' = op_name p" by auto
  then have "num_ops (remove_ops ?b1 [p]) < num_ops ?b1" by (rule num_ops_remove_ops)
  then show ?thesis by (simp add: rewired_def num_ops_replace_uses)
qed

lemma for_blocks_length: "for_blocks conv bs = Inr bs' \<Longrightarrow> length bs' = length bs"
  by (induction bs arbitrary: bs') (auto split: sum.splits)

lemma for_blocks_num_ops:
  "(\<And>b b'. b \<in> set bs \<Longrightarrow> conv b = Inr b' \<Longrightarrow> num_ops b' \<le> num_ops b) \<Longrightarrow>
   for_blocks conv bs = Inr bs' \<Longrightarrow>
     sum_list (map num_ops bs') \<le> sum_list (map num_ops bs)"
proof (induction bs arbitrary: bs')
  case Nil
  then show ?case by simp
next
  case (Cons b bs)
  from Cons.prems(2) obtain b' bs'' where
    b': "conv b = Inr b'" and rest: "for_blocks conv bs = Inr bs''" and eq: "bs' = b' # bs''"
    by (auto split: sum.splits)
  have "num_ops b' \<le> num_ops b" using Cons.prems(1) b' by simp
  moreover have "sum_list (map num_ops bs'') \<le> sum_list (map num_ops bs)"
    using Cons.prems(1) rest by (intro Cons.IH) auto
  ultimately show ?case by (simp add: eq)
qed

text \<open>One iteration of the loop over the operations.\<close>

lemma scan_ops_step:
  assumes "scan_ops conv self outs done (p # rest) = Inr (changed, block')"
  shows "\<exists>bs'. for_blocks conv (blocks p) = Inr bs' \<and>
     (scan_ops conv self outs (done @ [set_blocks p bs']) rest = Inr (changed, block') \<or>
      (bs' = [] \<and> changed \<and>
       (\<exists>f. match_pattern (set_blocks p bs') (Block (done @ set_blocks p bs' # rest) outs) =
               Inr (Some f) \<and>
            op_name p \<notin> ops_to_skip self \<and>
            f (set_blocks p bs') (Block (done @ set_blocks p bs' # rest) outs) =
               Inr (True, block'))))"
  using assms by (auto simp: Let_def split: sum.splits option.splits if_splits)

lemma scan_ops_num_ops:
  "(\<And>p b b'. p \<in> set ops \<Longrightarrow> b \<in> set (blocks p) \<Longrightarrow> conv b = Inr b' \<Longrightarrow>
       num_ops b' \<le> num_ops b) \<Longrightarrow>
   scan_ops conv self outs done ops = Inr (changed, block') \<Longrightarrow>
     num_ops block' \<le> sum_list (map num_ops_op (done @ ops)) \<and>
     (changed \<longrightarrow> num_ops block' < sum_list (map num_ops_op (done @ ops)))"
proof (induction ops arbitrary: "done")
  case Nil
  then show ?case by auto
next
  case (Cons p rest)
  from scan_ops_step [OF Cons.prems(2)] obtain bs' where
    fb: "for_blocks conv (blocks p) = Inr bs'" and
    alt: "scan_ops conv self outs (done @ [set_blocks p bs']) rest = Inr (changed, block') \<or>
      (bs' = [] \<and> changed \<and>
       (\<exists>f. match_pattern (set_blocks p bs') (Block (done @ set_blocks p bs' # rest) outs) =
               Inr (Some f) \<and>
            op_name p \<notin> ops_to_skip self \<and>
            f (set_blocks p bs') (Block (done @ set_blocks p bs' # rest) outs) =
               Inr (True, block')))"
    by blast
  let ?p' = "set_blocks p bs'"
  have "sum_list (map num_ops bs') \<le> sum_list (map num_ops (blocks p))"
    using Cons.prems(1) fb by (intro for_blocks_num_ops [of "blocks p" conv]) auto
  then have p'_le: "num_ops_op ?p' \<le> num_ops_op p"
    by (simp add: num_ops_op_set_blocks num_ops_op_blocks [of p])
  from alt show ?case
  proof
    assume rec: "scan_ops conv self outs (done @ [?p']) rest = Inr (changed, block')"
    have "num_ops block' \<le> sum_list (map num_ops_op ((done @ [?p']) @ rest)) \<and>
          (changed \<longrightarrow> num_ops block' < sum_list (map num_ops_op ((done @ [?p']) @ rest)))"
      using Cons.prems(1) rec by (intro Cons.IH) auto
    then show ?thesis using p'_le by auto
  next
    assume "bs' = [] \<and> changed \<and>
       (\<exists>f. match_pattern ?p' (Block (done @ ?p' # rest) outs) = Inr (Some f) \<and>
            op_name p \<notin> ops_to_skip self \<and>
            f ?p' (Block (done @ ?p' # rest) outs) = Inr (True, block'))"
    then obtain f where
      m: "match_pattern ?p' (Block (done @ ?p' # rest) outs) = Inr (Some f)" and
      r: "f ?p' (Block (done @ ?p' # rest) outs) = Inr (True, block')"
      by blast
    from match_pattern_Some [OF m] have "uniform f" by simp
    with r obtain iv ov where "block' = rewired (Block (done @ ?p' # rest) outs) ?p' iv ov"
      unfolding uniform_def by (metis Inr_inject prod.inject)
    moreover have "num_ops (rewired (Block (done @ ?p' # rest) outs) ?p' iv ov) <
        num_ops (Block (done @ ?p' # rest) outs)"
      by (rule num_ops_rewired [of ?p']) simp_all
    ultimately show ?thesis using p'_le by auto
  qed
qed

lemma num_ops_nested:
  "p \<in> set (operations block) \<Longrightarrow> b \<in> set (blocks p) \<Longrightarrow> num_ops b < num_ops block"
proof -
  assume p: "p \<in> set (operations block)" and b: "b \<in> set (blocks p)"
  have "num_ops b \<le> sum_list (map num_ops (blocks p))"
    using b by (simp add: member_le_sum_list)
  then have "num_ops b < num_ops_op p" by (simp add: num_ops_op_blocks [of p])
  also have "\<dots> \<le> sum_list (map num_ops_op (operations block))"
    using p by (simp add: member_le_sum_list)
  finally show ?thesis by (simp add: num_ops_Block)
qed

lemma noop_elimination_block_body_num_ops:
  "(\<And>p b b'. p \<in> set (operations block) \<Longrightarrow> b \<in> set (blocks p) \<Longrightarrow> conv b = Inr b' \<Longrightarrow>
       num_ops b' \<le> num_ops b) \<Longrightarrow>
   noop_elimination_block_body conv self block = Inr (changed, block') \<Longrightarrow>
     num_ops block' \<le> num_ops block \<and> (changed \<longrightarrow> num_ops block' < num_ops block)"
  unfolding noop_elimination_block_body_def
  using scan_ops_num_ops [of "operations block" conv self "block_outputs block" "[]" changed block']
  by (simp add: num_ops_Block)

lemma converge_dom_num_ops:
  "noop_elimination_converge_dom (self, block) \<Longrightarrow>
     noop_elimination_converge self block = Inr block' \<Longrightarrow> num_ops block' \<le> num_ops block"
proof (induction self block arbitrary: block' rule: noop_elimination_converge.pinduct)
  case (1 self block)
  from "1.prems" obtain changed y where
    body: "noop_elimination_block_body (noop_elimination_converge self) self block =
        Inr (changed, y)"
    by (simp add: noop_elimination_converge.psimps [OF "1.hyps"] split: sum.splits prod.splits)
  have le: "num_ops y \<le> num_ops block \<and> (changed \<longrightarrow> num_ops y < num_ops block)"
    by (rule noop_elimination_block_body_num_ops [OF _ body]) (rule "1.IH"(1))
  show ?case
  proof (cases changed)
    case True
    with "1.prems" body have "noop_elimination_converge self y = Inr block'"
      by (simp add: noop_elimination_converge.psimps [OF "1.hyps"])
    with "1.IH"(2) [OF body refl True] le show ?thesis by fastforce
  next
    case False
    with "1.prems" body have "block' = y"
      by (simp add: noop_elimination_converge.psimps [OF "1.hyps"])
    with le show ?thesis by simp
  qed
qed

text \<open>
  Termination of the fixed-point loop: the total operation count of the block decreases
  with every scan that reports a change, and a nested block is smaller than its block.
\<close>

termination noop_elimination_converge
proof (relation "measure (\<lambda>(self, block). num_ops block)")
  show "wf (measure (\<lambda>(self, block). num_ops block))" by simp
next
  fix self :: noop_elimination and block p b
  assume "p \<in> set (operations block)" "b \<in> set (blocks p)"
  then show "((self, b), (self, block)) \<in> measure (\<lambda>(self, block). num_ops block)"
    by (simp add: num_ops_nested)
next
  fix self :: noop_elimination and block b x y
  assume body: "noop_elimination_block_body (noop_elimination_converge self) self block = Inr b"
    and b: "(x, y) = b" and x: x
    and dom: "\<And>p b. p \<in> set (operations block) \<Longrightarrow> b \<in> set (blocks p) \<Longrightarrow>
        noop_elimination_converge_dom (self, b)"
  have "num_ops y \<le> num_ops block \<and> (x \<longrightarrow> num_ops y < num_ops block)"
  proof (rule noop_elimination_block_body_num_ops)
    show "noop_elimination_block_body (noop_elimination_converge self) self block = Inr (x, y)"
      using body b by simp
  next
    fix p b b'
    assume "p \<in> set (operations block)" "b \<in> set (blocks p)"
      "noop_elimination_converge self b = Inr b'"
    then show "num_ops b' \<le> num_ops b"
      using dom converge_dom_num_ops by blast
  qed
  with x show "((self, y), (self, block)) \<in> measure (\<lambda>(self, block). num_ops block)"
    by simp
qed

declare noop_elimination_converge.simps [simp del]


subsection \<open>The pass\<close>

text \<open>
  \<open>_noop_elimination_block(block)\<close>: one scan of the block, with the fixed-point loop run on
  the nested blocks of each operation it meets.
\<close>

definition noop_elimination_block ::
  "noop_elimination \<Rightarrow> block \<Rightarrow> py_error + bool \<times> block" where
  "noop_elimination_block self block =
     noop_elimination_block_body (noop_elimination_converge self) self block"

text \<open>\<open>apply\<close>: the loop \<open>for f in prog.functions.values()\<close> runs the fixed point on each function.\<close>

fun apply_functions ::
  "noop_elimination \<Rightarrow> (string \<times> block) list \<Rightarrow> py_error + (string \<times> block) list" where
  "apply_functions self [] = Inr []"
| "apply_functions self ((name, f) # fs) =
     (case noop_elimination_converge self f of
        Inl e \<Rightarrow> Inl e
      | Inr f' \<Rightarrow>
          (case apply_functions self fs of
             Inl e \<Rightarrow> Inl e
           | Inr fs' \<Rightarrow> Inr ((name, f') # fs')))"

definition noop_elimination_apply :: "noop_elimination \<Rightarrow> program \<Rightarrow> py_error + program" where
  "noop_elimination_apply self prog =
     (let self' = set_ops_to_skip self prog in
      case apply_functions self' (prog_functions prog) of
        Inl e \<Rightarrow> Inl e
      | Inr fs \<Rightarrow> Inr (prog\<lparr>prog_functions := fs\<rparr>))"

subsection \<open>The conditions of the specification\<close>

text \<open>
  The identity element of an elementwise operator and the operands on which the
  specification allows it: "0 on either operand for add; 1 on either operand for mul; 0
  only as the right operand for sub; 1 only as the right operand for real\_div, floor\_div,
  and pow". A pair \<open>(k, s)\<close> names the constant operand \<open>k\<close> and the surviving operand \<open>s\<close>.
\<close>

definition identity_element :: "string \<Rightarrow> rat" where
  "identity_element t = (if t \<in> {''add'', ''sub''} then 0 else 1)"

definition allowed_sides :: "string \<Rightarrow> (string \<times> string) list" where
  "allowed_sides t =
     (if t \<in> {''add'', ''mul''} then [(''x'', ''y''), (''y'', ''x'')]
      else if t \<in> {''sub'', ''real_div'', ''floor_div'', ''pow''} then [(''y'', ''x'')]
      else [])"

definition is_identity_const :: "var \<Rightarrow> rat \<Rightarrow> bool" where
  "is_identity_const v c = (case val v of None \<Rightarrow> False | Some a \<Rightarrow> np_all_eq a c)"

text \<open>
  The specification's condition for removing an elementwise operation: on some allowed
  side the operand is a constant equal to the identity element, and the type of the other
  operand, which survives, equals the type of the output.
\<close>

definition spec_identity_removable :: "op \<Rightarrow> bool" where
  "spec_identity_removable p =
     list_ex (\<lambda>(k, s).
        case (map_of (inputs p) k, map_of (inputs p) s, outputs p) of
          (Some c, Some v, out # _) \<Rightarrow>
             is_identity_const c (identity_element (op_type p)) \<and> sym_type v = sym_type out
        | _ \<Rightarrow> False)
       (allowed_sides (op_type p))"

text \<open>
  What the code does: the left operand is tested first, where the operator allows the
  identity on the left, and then the right operand; the first that is an identity constant
  is dropped and the other operand is the survivor.
\<close>

definition surviving_operand :: "string \<Rightarrow> var \<Rightarrow> var \<Rightarrow> var option" where
  "surviving_operand t vx vy =
     (if t \<in> {''add'', ''mul''} \<and> is_identity_const vx (identity_element t) then Some vy
      else if t \<in> {''add'', ''mul'', ''sub'', ''real_div'', ''floor_div'', ''pow''} \<and>
              is_identity_const vy (identity_element t) then Some vx
      else None)"

text \<open>
  The guard of the matcher in the specification's words: the operation has more than one
  output, or its sole output is a declared output of the enclosing block.
\<close>

definition guarded :: "var list \<Rightarrow> op \<Rightarrow> bool" where
  "guarded outs p =
     (length (outputs p) > 1 \<or> (length (outputs p) = 1 \<and> hd (outputs p) \<in> set outs))"

text \<open>An operation and what is left of it after rewiring: same name, type and outputs.\<close>

definition same_head :: "op \<Rightarrow> op \<Rightarrow> bool" where
  "same_head p p' = (op_name p' = op_name p \<and> op_type p' = op_type p \<and> outputs p' = outputs p)"

subsection \<open>Blocks at every nesting depth\<close>

text \<open>
  Operation names are distinct in every block, at every nesting depth. The model finds an
  operation by its name where the source compares objects.
\<close>

fun well_named_op :: "op \<Rightarrow> bool" and well_named :: "block \<Rightarrow> bool" where
  "well_named_op (Op n t ins outs bs) = (\<forall>b \<in> set bs. well_named b)"
| "well_named (Block ops outs) =
     (distinct (map op_name ops) \<and> (\<forall>p \<in> set ops. well_named_op p))"



subsection \<open>Example graphs\<close>

definition mk_var :: "string \<Rightarrow> sym_type \<Rightarrow> rat list option \<Rightarrow> string option \<Rightarrow> var" where
  "mk_var n ty v producer = \<lparr>var_name = n, sym_type = ty, val = v, var_op = producer\<rparr>"

definition fp32_2x2 :: sym_type where
  "fp32_2x2 = Tensor [2, 2] ''fp32''"

definition fp32_scalar :: sym_type where
  "fp32_scalar = Tensor [] ''fp32''"

definition v_in :: var where "v_in = mk_var ''input'' fp32_2x2 None None"
definition v1 :: var where "v1 = mk_var ''%1'' fp32_2x2 None (Some ''op1'')"
definition v2 :: var where "v2 = mk_var ''%2'' fp32_2x2 None (Some ''op2'')"
definition v3 :: var where "v3 = mk_var ''%3'' fp32_2x2 None (Some ''op3'')"
definition zeros_2x2 :: var where
  "zeros_2x2 = mk_var ''zeros'' fp32_2x2 (Some [0, 0, 0, 0]) (Some ''const_zeros'')"
definition zero_scalar :: var where
  "zero_scalar = mk_var ''zero'' fp32_scalar (Some [0]) (Some ''const_zero'')"
definition two_scalar :: var where
  "two_scalar = mk_var ''two'' fp32_scalar (Some [2]) (Some ''const_two'')"

text \<open>\<open>%1 = relu(input); %2 = add(%1, zeros); %3 = mul(%2, 2)\<close>, with \<open>%3\<close> the block's output.\<close>

definition op1 :: op where "op1 = Op ''op1'' ''relu'' [(''x'', v_in)] [v1] []"
definition op2 :: op where "op2 = Op ''op2'' ''add'' [(''x'', v1), (''y'', zeros_2x2)] [v2] []"
definition op3 :: op where "op3 = Op ''op3'' ''mul'' [(''x'', v2), (''y'', two_scalar)] [v3] []"
definition op3_rewired :: op where
  "op3_rewired = Op ''op3'' ''mul'' [(''x'', v1), (''y'', two_scalar)] [v3] []"

definition example_block :: block where
  "example_block = Block [op1, op2, op3] [v3]"

definition example_block_done :: block where
  "example_block_done = Block [op1, op3_rewired] [v3]"

text \<open>\<open>%2 = add(zeros, zero)\<close>: both operands are constants equal to 0, the left one of the
  output's type, the right one a scalar.\<close>

definition op_both_zero :: op where
  "op_both_zero = Op ''op2'' ''add'' [(''x'', zeros_2x2), (''y'', zero_scalar)] [v2] []"

text \<open>\<open>%1 = relu(input); %2 = transpose(%1, perm); %3 = mul(%2, 2)\<close>.\<close>

definition int32_3 :: sym_type where
  "int32_3 = Tensor [3] ''int32''"

definition perm_var :: "rat list \<Rightarrow> var" where
  "perm_var pv = mk_var ''perm'' int32_3 (Some pv) (Some ''const_perm'')"

definition example_transpose :: "rat list \<Rightarrow> op" where
  "example_transpose pv = Op ''op2'' ''transpose'' [(''x'', v1), (''perm'', perm_var pv)] [v2] []"

definition example_transpose_block :: "rat list \<Rightarrow> block" where
  "example_transpose_block pv = Block [op1, example_transpose pv, op3] [v3]"


definition example_program :: program where
  "example_program = \<lparr>prog_functions = [(''main'', example_block)]\<rparr>"

definition example_program_done :: program where
  "example_program_done = \<lparr>prog_functions = [(''main'', example_block_done)]\<rparr>"

text \<open>
  A control-flow operation whose body holds a reshape that changes nothing:
  \<open>%1 = relu(input); %c = cond(%1) { %n1 = reshape(%1); %n2 = relu(%n1) }\<close>.
\<close>

definition v_n1 :: var where "v_n1 = mk_var ''%n1'' fp32_2x2 None (Some ''n1'')"
definition v_n2 :: var where "v_n2 = mk_var ''%n2'' fp32_2x2 None (Some ''n2'')"
definition v_c :: var where "v_c = mk_var ''%c'' fp32_2x2 None (Some ''cond'')"

definition nested_body :: block where
  "nested_body =
     Block [Op ''n1'' ''reshape'' [(''x'', v1)] [v_n1] [],
            Op ''n2'' ''relu'' [(''x'', v_n1)] [v_n2] []] [v_n2]"

definition nested_body_done :: block where
  "nested_body_done = Block [Op ''n2'' ''relu'' [(''x'', v1)] [v_n2] []] [v_n2]"

definition example_nested :: block where
  "example_nested = Block [op1, Op ''cond'' ''cond'' [(''pred'', v1)] [v_c] [nested_body]] [v_c]"

definition example_nested_done :: block where
  "example_nested_done =
     Block [op1, Op ''cond'' ''cond'' [(''pred'', v1)] [v_c] [nested_body_done]] [v_c]"










section \<open>Properties of the registry\<close>

subsection \<open>String helpers\<close>

lemma endswith_underscore: "endswith s ''_'' \<longleftrightarrow> s \<noteq> [] \<and> last s = CHR ''_''"
proof (cases s rule: rev_cases)
  case Nil
  then show ?thesis by (simp add: endswith_def)
next
  case (snoc ys y)
  then show ?thesis by (simp add: endswith_def)
qed

lemma endswith_append_underscore: "endswith (n @ ''_'') ''_''"
  by (simp add: endswith_underscore)

lemma endswith_dunder_imp_underscore: "endswith s ''__'' \<Longrightarrow> endswith s ''_''"
proof -
  assume h: "endswith s ''__''"
  then have len: "2 \<le> length s" and d: "drop (length s - 2) s = ''__''"
    by (simp_all add: endswith_def numeral_2_eq_2)
  from len have "s \<noteq> []" by auto
  moreover have "last s = last (drop (length s - 2) s)"
    using len by (simp add: last_drop)
  ultimately show ?thesis using d by (simp add: endswith_underscore)
qed

lemma startswith_dunder_wrap: "startswith (''__'' @ n @ ''__'') ''__''"
  by (simp add: startswith_def)

lemma endswith_dunder_wrap: "endswith (''__'' @ n @ ''__'') ''__''"
  by (simp add: endswith_def)

lemma strip_dunder_wrap:
  "drop 2 (take (length (''__'' @ n @ ''__'') - 2) (''__'' @ n @ ''__'')) = n"
  by simp

lemma endswith_dunder_append:
  "endswith (n @ ''_'') ''__'' \<longleftrightarrow> endswith n ''_''"
proof (cases n rule: rev_cases)
  case Nil
  then show ?thesis by (simp add: endswith_def)
next
  case (snoc ys y)
  then show ?thesis by (simp add: endswith_def)
qed

lemma not_endswith_no_underscore: "CHR ''_'' \<notin> set n \<Longrightarrow> \<not> endswith n ''_''"
  by (metis endswith_underscore last_in_set)

lemma get_func_plain:
  "\<not> endswith n ''_'' \<Longrightarrow> get_func self n = name_to_func_mapping self n"
  using endswith_dunder_imp_underscore [of n] by (auto simp: get_func_def)

lemma get_func_dunder_wrap:
  "get_func self (''__'' @ n @ ''__'') = name_to_func_mapping self n"
  unfolding get_func_def Let_def
  using startswith_dunder_wrap [of n] endswith_dunder_wrap [of n] strip_dunder_wrap [of n]
  by presburger

lemma get_func_inplace:
  "\<not> endswith n ''_'' \<Longrightarrow> get_func self (n @ ''_'') = name_to_func_mapping self n"
  by (simp add: get_func_def endswith_dunder_append endswith_append_underscore)

text \<open>
  Claim C6. Resolving \<open>"__" + n + "__"\<close> gives the handler of \<open>n\<close> when \<open>n\<close> has no
  underscore; resolving \<open>m + "_"\<close>, a name with a single trailing underscore (\<open>m\<close> does not
  itself end in one), gives the handler of \<open>m\<close>; a name wrapped in double underscores is
  looked up with both pairs stripped (the dunder rule is tested first), and only a name
  that is not so wrapped has its trailing underscore stripped.
\<close>

theorem get_func_canonicalization:
  "(CHR ''_'' \<notin> set n \<longrightarrow> get_func self (''__'' @ n @ ''__'') = get_func self n) \<and>
   (\<not> endswith m ''_'' \<longrightarrow> get_func self (m @ ''_'') = get_func self m) \<and>
   (startswith s ''__'' \<and> endswith s ''__'' \<longrightarrow>
      get_func self s = name_to_func_mapping self (drop 2 (take (length s - 2) s))) \<and>
   (\<not> (startswith s ''__'' \<and> endswith s ''__'') \<and> endswith s ''_'' \<longrightarrow>
      get_func self s = name_to_func_mapping self (take (length s - 1) s))"
proof (intro conjI impI)
  assume h: "CHR ''_'' \<notin> set n"
  have "get_func self n = name_to_func_mapping self n"
    by (rule get_func_plain [OF not_endswith_no_underscore [OF h]])
  then show "get_func self (''__'' @ n @ ''__'') = get_func self n"
    by (simp only: get_func_dunder_wrap)
next
  assume "\<not> endswith m ''_''"
  then show "get_func self (m @ ''_'') = get_func self m"
    by (simp add: get_func_inplace get_func_plain)
next
  assume "startswith s ''__'' \<and> endswith s ''__''"
  then show "get_func self s = name_to_func_mapping self (drop 2 (take (length s - 2) s))"
    by (simp add: get_func_def)
next
  assume "\<not> (startswith s ''__'' \<and> endswith s ''__'') \<and> endswith s ''_''"
  then show "get_func self s = name_to_func_mapping self (take (length s - 1) s)"
    by (auto simp: get_func_def)
qed

text \<open>
  The theorem of C6 at \<open>n = "and"\<close>, \<open>m = "add"\<close> and \<open>s = "__and__"\<close>, \<open>s = "add_"\<close>.
\<close>

theorem get_func_canonicalization_witness:
  "get_func example_registry ''__and__'' = get_func example_registry ''and'' \<and>
   get_func example_registry ''add_'' = get_func example_registry ''add'' \<and>
   get_func example_registry ''__and__'' = Some (example_func ''and'' 2) \<and>
   get_func example_registry ''add_'' = Some (example_func ''add'' 1)"
  using get_func_canonicalization [of "''and''" example_registry "''add''" "''__and__''"]
        get_func_canonicalization [of "''and''" example_registry "''add''" "''add_''"]
  by (simp add: get_func_def endswith_def startswith_def example_registry_def)

lemmas example_simps =
  register_func_def all_f_names_def set_func_by_name_def example_func_def
  example_registry_def init_registry_def endswith_def startswith_def

subsection \<open>The registration loop\<close>

lemma mapping_set_func_by_name:
  "name_to_func_mapping (set_func_by_name self fn name) k =
     (if k = name then Some fn else name_to_func_mapping self k)"
  by (simp add: set_func_by_name_def)

lemma register_names_raises_inplace:
  "name \<in> set names \<Longrightarrow> endswith name ''_'' \<Longrightarrow>
     \<exists>e. fst (register_names self fn override names) = Inl e"
  by (induction names arbitrary: self) auto

lemma register_names_raises_duplicate:
  "name \<in> set names \<Longrightarrow> name \<in> dom (name_to_func_mapping self) \<Longrightarrow>
     \<exists>e. fst (register_names self fn False names) = Inl e"
proof (induction names arbitrary: self)
  case Nil
  then show ?case by simp
next
  case (Cons a names)
  show ?case
  proof (cases "endswith a ''_'' \<or> a \<in> dom (name_to_func_mapping self)")
    case True
    then show ?thesis by auto
  next
    case False
    with Cons.prems have in_rest: "name \<in> set names" by auto
    have "name \<in> dom (name_to_func_mapping (set_func_by_name self fn a))"
      using Cons.prems(2) by (auto simp: mapping_set_func_by_name)
    from Cons.IH [OF in_rest this] False show ?thesis by simp
  qed
qed

lemma register_names_success:
  "register_names self fn override names = (Inr (), self') \<Longrightarrow>
     name_to_func_mapping self' =
       (\<lambda>k. if k \<in> set names then Some fn else name_to_func_mapping self k)"
proof (induction names arbitrary: self)
  case Nil
  then show ?case by simp
next
  case (Cons a names)
  from Cons.prems have
    step: "register_names (set_func_by_name self fn a) fn override names = (Inr (), self')"
    by (simp split: if_splits)
  show ?case
    unfolding Cons.IH [OF step] by (auto simp: mapping_set_func_by_name)
qed

lemma register_names_override:
  "\<forall>name \<in> set names. \<not> endswith name ''_'' \<Longrightarrow>
     fst (register_names self fn True names) = Inr ()"
  by (induction names arbitrary: self) auto

lemma register_names_failure:
  "register_names self fn override names = (Inl e, self') \<Longrightarrow>
     \<exists>pre bad rest. names = pre @ bad # rest \<and>
       ((e = Exception bad \<and> endswith bad ''_'') \<or>
        (e = ValueError bad \<and> \<not> override \<and> (bad \<in> dom (name_to_func_mapping self) \<or> bad \<in> set pre))) \<and>
       name_to_func_mapping self' =
         (\<lambda>k. if k \<in> set pre then Some fn else name_to_func_mapping self k)"
proof (induction names arbitrary: self)
  case Nil
  then show ?case by simp
next
  case (Cons a names)
  show ?case
  proof (cases "endswith a ''_''")
    case True
    with Cons.prems have "e = Exception a" "self' = self" by auto
    with True show ?thesis by (intro exI [of _ "[]"] exI [of _ a] exI [of _ names]) simp
  next
    case notin: False
    show ?thesis
    proof (cases "\<not> override \<and> a \<in> dom (name_to_func_mapping self)")
      case True
      with notin Cons.prems have "e = ValueError a" "self' = self" by auto
      with True show ?thesis by (intro exI [of _ "[]"] exI [of _ a] exI [of _ names]) simp
    next
      case False
      with notin Cons.prems have
        step: "register_names (set_func_by_name self fn a) fn override names = (Inl e, self')"
        by (simp split: if_splits)
      from Cons.IH [OF step] obtain pre bad rest where
        split: "names = pre @ bad # rest" and
        err: "(e = Exception bad \<and> endswith bad ''_'') \<or>
              (e = ValueError bad \<and> \<not> override \<and>
                (bad \<in> dom (name_to_func_mapping (set_func_by_name self fn a)) \<or> bad \<in> set pre))" and
        m: "name_to_func_mapping self' =
              (\<lambda>k. if k \<in> set pre then Some fn
                   else name_to_func_mapping (set_func_by_name self fn a) k)"
        by blast
      have 1: "a # names = (a # pre) @ bad # rest" using split by simp
      have 2: "(e = Exception bad \<and> endswith bad ''_'') \<or>
               (e = ValueError bad \<and> \<not> override \<and>
                 (bad \<in> dom (name_to_func_mapping self) \<or> bad \<in> set (a # pre)))"
        using err by (auto simp: mapping_set_func_by_name split: if_splits)
      have 3: "name_to_func_mapping self' =
                 (\<lambda>k. if k \<in> set (a # pre) then Some fn else name_to_func_mapping self k)"
        unfolding m by (auto simp: mapping_set_func_by_name)
      from 1 2 3 show ?thesis by blast
    qed
  qed
qed

lemma register_names_no_inplace_keys:
  "no_inplace_keys self \<Longrightarrow> no_inplace_keys (snd (register_names self fn override names))"
proof (induction names arbitrary: self)
  case Nil
  then show ?case by simp
next
  case (Cons a names)
  show ?case
  proof (cases "endswith a ''_'' \<or> (\<not> override \<and> a \<in> dom (name_to_func_mapping self))")
    case True
    with Cons.prems show ?thesis by auto
  next
    case False
    then have "no_inplace_keys (set_func_by_name self fn a)"
      using Cons.prems by (auto simp: no_inplace_keys_def mapping_set_func_by_name dom_def)
    from Cons.IH [OF this] False show ?thesis by auto
  qed
qed


lemma set_all_f_names: "set (all_f_names fn torch_alias) = target_names fn torch_alias"
  by (simp add: all_f_names_def target_names_def split: option.splits)

text \<open>
  Claim C7, as amended. A call to \<open>register_func\<close> raises when one of its target names (the
  function's own name or an alias) ends in an underscore, whatever \<open>override\<close> is; it raises
  when one of its target names is already bound and \<open>override\<close> is false. With \<open>override\<close>
  true the call returns normally exactly when no target name ends in an underscore, and
  then every target name, alias or not, bound before or not, is bound to the new function
  and every other name keeps its handler. In a registry filled through \<open>register_func\<close> (no
  key ends in an underscore), registering alone a function whose name is already bound,
  with \<open>override\<close> true, returns normally and binds the name to the new function.
\<close>

theorem register_func_rules:
  "(name \<in> target_names fn torch_alias \<and> endswith name ''_'' \<longrightarrow>
      (\<exists>e. fst (register_func self fn torch_alias override) = Inl e)) \<and>
   (name \<in> target_names fn torch_alias \<and> name \<in> dom (name_to_func_mapping self) \<longrightarrow>
      (\<exists>e. fst (register_func self fn torch_alias False) = Inl e)) \<and>
   ((fst (register_func self fn torch_alias True) = Inr ()) =
      (\<forall>n \<in> target_names fn torch_alias. \<not> endswith n ''_'')) \<and>
   (fst (register_func self fn torch_alias True) = Inr () \<longrightarrow>
      name_to_func_mapping (snd (register_func self fn torch_alias True)) =
        (\<lambda>k. if k \<in> target_names fn torch_alias then Some fn
             else name_to_func_mapping self k)) \<and>
   (no_inplace_keys self \<and> f_name fn \<in> dom (name_to_func_mapping self) \<longrightarrow>
      register_func self fn None True = (Inr (), set_func_by_name self fn (f_name fn)) \<and>
      name_to_func_mapping (set_func_by_name self fn (f_name fn)) (f_name fn) = Some fn)"
proof (intro conjI impI)
  assume "name \<in> target_names fn torch_alias \<and> endswith name ''_''"
  then have "name \<in> set (all_f_names fn torch_alias)" "endswith name ''_''"
    by (simp_all add: set_all_f_names)
  then show "\<exists>e. fst (register_func self fn torch_alias override) = Inl e"
    unfolding register_func_def by (rule register_names_raises_inplace)
next
  assume "name \<in> target_names fn torch_alias \<and> name \<in> dom (name_to_func_mapping self)"
  then have "name \<in> set (all_f_names fn torch_alias)" "name \<in> dom (name_to_func_mapping self)"
    by (simp_all add: set_all_f_names)
  then show "\<exists>e. fst (register_func self fn torch_alias False) = Inl e"
    unfolding register_func_def by (rule register_names_raises_duplicate)
next
  show "(fst (register_func self fn torch_alias True) = Inr ()) =
      (\<forall>n \<in> target_names fn torch_alias. \<not> endswith n ''_'')"
  proof
    assume ret: "fst (register_func self fn torch_alias True) = Inr ()"
    show "\<forall>n \<in> target_names fn torch_alias. \<not> endswith n ''_''"
    proof (intro ballI notI)
      fix n
      assume "n \<in> target_names fn torch_alias" "endswith n ''_''"
      then have "n \<in> set (all_f_names fn torch_alias)" "endswith n ''_''"
        by (simp_all add: set_all_f_names)
      then have "\<exists>e. fst (register_names self fn True (all_f_names fn torch_alias)) = Inl e"
        by (rule register_names_raises_inplace)
      with ret show False by (simp add: register_func_def)
    qed
  next
    assume "\<forall>n \<in> target_names fn torch_alias. \<not> endswith n ''_''"
    then have "\<forall>n \<in> set (all_f_names fn torch_alias). \<not> endswith n ''_''"
      by (simp add: set_all_f_names)
    then show "fst (register_func self fn torch_alias True) = Inr ()"
      unfolding register_func_def by (rule register_names_override)
  qed
next
  assume "fst (register_func self fn torch_alias True) = Inr ()"
  then have "register_names self fn True (all_f_names fn torch_alias) =
      (Inr (), snd (register_func self fn torch_alias True))"
    unfolding register_func_def by (metis prod.collapse)
  from register_names_success [OF this]
  show "name_to_func_mapping (snd (register_func self fn torch_alias True)) =
      (\<lambda>k. if k \<in> target_names fn torch_alias then Some fn
           else name_to_func_mapping self k)"
    by (simp add: set_all_f_names)
next
  assume "no_inplace_keys self \<and> f_name fn \<in> dom (name_to_func_mapping self)"
  then have "\<not> endswith (f_name fn) ''_''" by (auto simp: no_inplace_keys_def)
  then show "register_func self fn None True = (Inr (), set_func_by_name self fn (f_name fn))"
    by (simp add: register_func_def all_f_names_def)
next
  show "name_to_func_mapping (set_func_by_name self fn (f_name fn)) (f_name fn) = Some fn"
    by (simp add: mapping_set_func_by_name)
qed

text \<open>
  The theorem of C7 on a registry that binds \<open>"add"\<close> and \<open>"and"\<close>: a new function with the
  alias \<open>"sub_"\<close> raises at the alias; a new function with the alias \<open>"add"\<close> raises without
  override; with override, \<open>"add"\<close> registered with the alias \<open>"and"\<close> rebinds both names and
  leaves nothing else bound; \<open>"add"\<close> registered alone with override rebinds it.
\<close>

theorem register_func_rules_witness:
  "fst (register_func example_registry (example_func ''sub'' 3) (Some [''sub_'']) True) =
     Inl (Exception ''sub_'') \<and>
   fst (register_func example_registry (example_func ''plus'' 3) (Some [''add'']) False) =
     Inl (ValueError ''add'') \<and>
   register_func example_registry (example_func ''add'' 3) (Some [''and'']) True =
     (Inr (), \<lparr>name_to_func_mapping =
        [''add'' \<mapsto> example_func ''add'' 3, ''and'' \<mapsto> example_func ''add'' 3]\<rparr>) \<and>
   register_func example_registry (example_func ''add'' 3) None True =
     (Inr (), set_func_by_name example_registry (example_func ''add'' 3) ''add'')"
proof -
  have inv: "no_inplace_keys example_registry"
    by (simp add: no_inplace_keys_def example_registry_def endswith_def)
  have t1: "''sub_'' \<in> target_names (example_func ''sub'' 3) (Some [''sub_''])"
    and t2: "''add'' \<in> target_names (example_func ''plus'' 3) (Some [''add''])"
    and t3: "\<forall>n \<in> target_names (example_func ''add'' 3) (Some [''and'']). \<not> endswith n ''_''"
    by (simp_all add: target_names_def example_func_def endswith_def)
  have run: "register_func example_registry (example_func ''add'' 3) (Some [''and'']) True =
     (Inr (), \<lparr>name_to_func_mapping =
        [''add'' \<mapsto> example_func ''add'' 3, ''and'' \<mapsto> example_func ''add'' 3]\<rparr>)"
    by (simp add: example_simps fun_upd_twist)
  show ?thesis
    using inv t1 t2 t3 run
      register_func_rules [of "''sub_''" "example_func ''sub'' 3" "Some [''sub_'']"
        example_registry True]
      register_func_rules [of "''add''" "example_func ''plus'' 3" "Some [''add'']"
        example_registry]
      register_func_rules [of "''add''" "example_func ''add'' 3" "Some [''and'']"
        example_registry]
    by (simp add: example_simps)
qed

text \<open>
  Claim C7 as stated ("re-registering an already-bound name with override true always
  succeeds") fails in the registry that binds \<open>"add"\<close>: registering \<open>"add"\<close> with the alias
  \<open>"x_"\<close> and override true raises at the alias, after \<open>"add"\<close> has been rebound.
\<close>

theorem register_func_override_counterexample:
  "''add'' \<in> dom (name_to_func_mapping example_registry) \<and>
   register_func example_registry (example_func ''add'' 3) (Some [''x_'']) True =
     (Inl (Exception ''x_''), set_func_by_name example_registry (example_func ''add'' 3) ''add'')"
  by (simp add: example_simps)

text \<open>
  Claim C9. When \<open>register_func\<close> raises, the target names split into the names before the
  offending one, the offending name (ending in an underscore, or a duplicate without
  override) and the rest; the registry left behind binds every earlier name to the function
  (its own name included, when the offending name is an alias) and is unchanged elsewhere.
\<close>

theorem register_func_not_atomic:
  "register_func self fn torch_alias override = (Inl e, self') \<Longrightarrow>
     \<exists>pre bad rest. all_f_names fn torch_alias = pre @ bad # rest \<and>
       ((e = Exception bad \<and> endswith bad ''_'') \<or>
        (e = ValueError bad \<and> \<not> override \<and>
          (bad \<in> dom (name_to_func_mapping self) \<or> bad \<in> set pre))) \<and>
       (\<forall>n \<in> set pre. name_to_func_mapping self' n = Some fn) \<and>
       (\<forall>k. k \<notin> set pre \<longrightarrow> name_to_func_mapping self' k = name_to_func_mapping self k) \<and>
       (pre \<noteq> [] \<longrightarrow> name_to_func_mapping self' (f_name fn) = Some fn)"
proof -
  assume "register_func self fn torch_alias override = (Inl e, self')"
  then have "register_names self fn override (all_f_names fn torch_alias) = (Inl e, self')"
    by (simp add: register_func_def)
  from register_names_failure [OF this] obtain pre bad rest where
    split: "all_f_names fn torch_alias = pre @ bad # rest" and
    err: "(e = Exception bad \<and> endswith bad ''_'') \<or>
          (e = ValueError bad \<and> \<not> override \<and>
            (bad \<in> dom (name_to_func_mapping self) \<or> bad \<in> set pre))" and
    m: "name_to_func_mapping self' =
          (\<lambda>k. if k \<in> set pre then Some fn else name_to_func_mapping self k)"
    by blast
  have own: "pre \<noteq> [] \<longrightarrow> f_name fn \<in> set pre"
    using split by (cases pre) (auto simp: all_f_names_def)
  have "(\<forall>n \<in> set pre. name_to_func_mapping self' n = Some fn) \<and>
        (\<forall>k. k \<notin> set pre \<longrightarrow> name_to_func_mapping self' k = name_to_func_mapping self k) \<and>
        (pre \<noteq> [] \<longrightarrow> name_to_func_mapping self' (f_name fn) = Some fn)"
    using own by (simp add: m)
  with split err show ?thesis by blast
qed

text \<open>
  The theorem of C9 on the empty registry: registering \<open>sort\<close> with the aliases
  \<open>sortv1\<close>, \<open>sort_\<close>, \<open>sortv2\<close> raises at \<open>sort_\<close> and leaves \<open>sort\<close> and \<open>sortv1\<close> bound.
\<close>

theorem register_func_not_atomic_witness:
  "register_func init_registry (example_func ''sort'' 1) (Some [''sortv1'', ''sort_'', ''sortv2'']) False =
     (Inl (Exception ''sort_''),
      \<lparr>name_to_func_mapping =
         [''sort'' \<mapsto> example_func ''sort'' 1, ''sortv1'' \<mapsto> example_func ''sort'' 1]\<rparr>) \<and>
   (\<exists>pre bad rest. all_f_names (example_func ''sort'' 1) (Some [''sortv1'', ''sort_'', ''sortv2'']) =
       pre @ bad # rest \<and> bad = ''sort_'' \<and> pre = [''sort'', ''sortv1''])"
proof -
  have run: "register_func init_registry (example_func ''sort'' 1)
      (Some [''sortv1'', ''sort_'', ''sortv2'']) False =
     (Inl (Exception ''sort_''),
      \<lparr>name_to_func_mapping =
         [''sort'' \<mapsto> example_func ''sort'' 1, ''sortv1'' \<mapsto> example_func ''sort'' 1]\<rparr>)"
    by (simp add: example_simps)
  from register_func_not_atomic [OF run] obtain pre bad rest where
    split: "all_f_names (example_func ''sort'' 1) (Some [''sortv1'', ''sort_'', ''sortv2'']) =
       pre @ bad # rest" and
    err: "(Exception ''sort_'' = Exception bad \<and> endswith bad ''_'') \<or>
          (Exception ''sort_'' = ValueError bad \<and> \<not> False \<and>
            (bad \<in> dom (name_to_func_mapping init_registry) \<or> bad \<in> set pre))"
    by blast
  from err have bad: "bad = ''sort_''" by auto
  have "pre = [''sort'', ''sortv1'']"
    using split unfolding bad all_f_names_def
    by (auto simp: append_eq_Cons_conv Cons_eq_append_conv example_func_def)
  with split bad run show ?thesis by blast
qed


lemma dunder_imp_inplace_form:
  "startswith name ''__'' \<and> endswith name ''__'' \<Longrightarrow> endswith name ''_''"
  by (simp add: endswith_dunder_imp_underscore)

text \<open>
  Claim C10. A target name wrapped in double underscores makes \<open>register_func\<close> raise (it
  ends in an underscore); when it is the function's own name the exception is the one for
  in-place names and the registry is untouched. Registration keeps the registry free of keys
  ending in an underscore, so a dunder name is never a key; after a successful registration
  under \<open>n\<close>, \<open>get_func\<close> resolves \<open>"__" + n + "__"\<close> to the registered function.
\<close>

theorem register_func_rejects_dunder:
  "(name \<in> set (all_f_names fn torch_alias) \<and> startswith name ''__'' \<and> endswith name ''__'' \<longrightarrow>
      (\<exists>e. fst (register_func self fn torch_alias override) = Inl e)) \<and>
   (startswith (f_name fn) ''__'' \<and> endswith (f_name fn) ''__'' \<longrightarrow>
      register_func self fn torch_alias override = (Inl (Exception (f_name fn)), self)) \<and>
   (no_inplace_keys self \<longrightarrow>
      no_inplace_keys (snd (register_func self fn torch_alias override))) \<and>
   (no_inplace_keys self \<and> startswith name ''__'' \<and> endswith name ''__'' \<longrightarrow>
      name_to_func_mapping self name = None) \<and>
   (fst (register_func self fn torch_alias override) = Inr () \<longrightarrow>
      (\<forall>n \<in> set (all_f_names fn torch_alias).
         get_func (snd (register_func self fn torch_alias override)) (''__'' @ n @ ''__'') = Some fn))"
proof (intro conjI impI)
  assume "name \<in> set (all_f_names fn torch_alias) \<and> startswith name ''__'' \<and> endswith name ''__''"
  then show "\<exists>e. fst (register_func self fn torch_alias override) = Inl e"
    unfolding register_func_def
    by (blast intro: register_names_raises_inplace dunder_imp_inplace_form)
next
  assume "startswith (f_name fn) ''__'' \<and> endswith (f_name fn) ''__''"
  then have "endswith (f_name fn) ''_''" by (rule dunder_imp_inplace_form)
  then show "register_func self fn torch_alias override = (Inl (Exception (f_name fn)), self)"
    by (simp add: register_func_def all_f_names_def)
next
  assume "no_inplace_keys self"
  then show "no_inplace_keys (snd (register_func self fn torch_alias override))"
    unfolding register_func_def by (rule register_names_no_inplace_keys)
next
  assume h: "no_inplace_keys self \<and> startswith name ''__'' \<and> endswith name ''__''"
  then have "endswith name ''_''" by (simp add: dunder_imp_inplace_form)
  with h show "name_to_func_mapping self name = None"
    by (auto simp: no_inplace_keys_def)
next
  assume ret: "fst (register_func self fn torch_alias override) = Inr ()"
  then have "register_names self fn override (all_f_names fn torch_alias) =
      (Inr (), snd (register_func self fn torch_alias override))"
    unfolding register_func_def by (metis prod.collapse)
  then have m: "name_to_func_mapping (snd (register_func self fn torch_alias override)) =
      (\<lambda>k. if k \<in> set (all_f_names fn torch_alias) then Some fn
           else name_to_func_mapping self k)"
    by (rule register_names_success)
  show "\<forall>n \<in> set (all_f_names fn torch_alias).
      get_func (snd (register_func self fn torch_alias override)) (''__'' @ n @ ''__'') = Some fn"
    unfolding get_func_dunder_wrap m by simp
qed

text \<open>
  The theorem of C10 at \<open>"__and__"\<close>: registering it directly raises, as function name and
  as alias; registering \<open>"and"\<close> makes \<open>get_func "__and__"\<close> return the handler although
  \<open>"__and__"\<close> is no key.
\<close>

theorem register_func_rejects_dunder_witness:
  "register_func init_registry (example_func ''__and__'' 4) None True =
     (Inl (Exception ''__and__''), init_registry) \<and>
   (\<exists>e. fst (register_func init_registry (example_func ''and'' 4) (Some [''__and__'']) False) = Inl e) \<and>
   no_inplace_keys init_registry \<and>
   no_inplace_keys (snd (register_func init_registry (example_func ''and'' 4) None False)) \<and>
   name_to_func_mapping (snd (register_func init_registry (example_func ''and'' 4) None False)) ''__and__'' = None \<and>
   get_func (snd (register_func init_registry (example_func ''and'' 4) None False)) ''__and__'' =
     Some (example_func ''and'' 4)"
proof -
  have inv: "no_inplace_keys init_registry"
    by (simp add: no_inplace_keys_def init_registry_def)
  have ok: "fst (register_func init_registry (example_func ''and'' 4) None False) = Inr ()"
    by (simp add: example_simps)
  show ?thesis
    using inv ok
      register_func_rejects_dunder [of "''__and__''" "example_func ''__and__'' 4" None init_registry True]
      register_func_rejects_dunder [of "''__and__''" "example_func ''and'' 4" "Some [''__and__'']" init_registry False]
      register_func_rejects_dunder [of "''__and__''" "example_func ''and'' 4" None init_registry False]
      register_func_rejects_dunder [of "''__and__''" "example_func ''and'' 4" None
         "snd (register_func init_registry (example_func ''and'' 4) None False)" False]
    by (simp add: all_f_names_def example_func_def endswith_def startswith_def)
qed

lemma endswith_drop:
  "endswith (drop n s) ''_'' \<Longrightarrow> endswith s ''_''"
  by (cases "n < length s") (auto simp: endswith_underscore)

lemma is_torch_fx_node_supported_key:
  assumes "is_torch_fx_node_supported registry n = Inr r" and "node_op n = ''call_function''"
  shows "\<exists>key. \<not> endswith key ''_'' \<and> r = contains registry key \<and>
            r = (get_func registry key \<noteq> None)"
proof -
  let ?name = "lower (node_target_name n)"
  let ?key = "if startswith ?name ''aten.'' then drop (length ''aten.'') ?name else ?name"
  from assms have ne: "\<not> endswith ?name ''_''" and r: "r = contains registry ?key"
    by (auto simp: is_torch_fx_node_supported_def Let_def split: if_splits)
  have "\<not> endswith ?key ''_''" using ne endswith_drop by auto
  moreover from this have "contains registry ?key = (get_func registry ?key \<noteq> None)"
    by (simp add: contains_def get_func_plain dom_def)
  ultimately show ?thesis using r by blast
qed

text \<open>
  Claim C8, as amended. The containment query looks the key up as it is given: it holds
  exactly when the key itself is bound. In a registry without keys ending in an underscore
  (every registry filled through \<open>register_func\<close>) it is false for every key ending in an
  underscore; it agrees with \<open>get_func\<close> on the keys that do not end in an underscore. The
  check \<open>is_torch_fx_node_supported\<close> fails its assertion on a name ending in an underscore,
  so the key it queries never needs canonicalization.
\<close>

theorem contains_is_raw_lookup:
  "contains self key = (name_to_func_mapping self key \<noteq> None) \<and>
   (no_inplace_keys self \<and> endswith key ''_'' \<longrightarrow> \<not> contains self key) \<and>
   (\<not> endswith key ''_'' \<longrightarrow> contains self key = (get_func self key \<noteq> None)) \<and>
   (node_op n = ''call_function'' \<and> endswith (lower (node_target_name n)) ''_'' \<longrightarrow>
      is_torch_fx_node_supported self n = Inl AssertionError) \<and>
   (is_torch_fx_node_supported self n = Inr r \<and> node_op n = ''call_function'' \<longrightarrow>
      (\<exists>k. \<not> endswith k ''_'' \<and> r = contains self k \<and> r = (get_func self k \<noteq> None)))"
proof (intro conjI impI)
  show "contains self key = (name_to_func_mapping self key \<noteq> None)"
    by (auto simp: contains_def)
next
  assume "no_inplace_keys self \<and> endswith key ''_''"
  then show "\<not> contains self key" by (auto simp: contains_def no_inplace_keys_def)
next
  assume "\<not> endswith key ''_''"
  then show "contains self key = (get_func self key \<noteq> None)"
    by (auto simp: contains_def get_func_plain)
next
  assume "node_op n = ''call_function'' \<and> endswith (lower (node_target_name n)) ''_''"
  then show "is_torch_fx_node_supported self n = Inl AssertionError"
    by (simp add: is_torch_fx_node_supported_def)
next
  assume "is_torch_fx_node_supported self n = Inr r \<and> node_op n = ''call_function''"
  then have "is_torch_fx_node_supported self n = Inr r" and "node_op n = ''call_function''"
    by simp_all
  then show "\<exists>k. \<not> endswith k ''_'' \<and> r = contains self k \<and> r = (get_func self k \<noteq> None)"
    by (rule is_torch_fx_node_supported_key)
qed

text \<open>
  The theorem of C8 on the registry that binds \<open>"add"\<close> and \<open>"and"\<close>.
\<close>

theorem contains_is_raw_lookup_witness:
  "contains example_registry ''add'' \<and> get_func example_registry ''add'' \<noteq> None \<and>
   no_inplace_keys example_registry \<and> \<not> contains example_registry ''add_'' \<and>
   is_torch_fx_node_supported example_registry (example_node ''add_'') = Inl AssertionError \<and>
   is_torch_fx_node_supported example_registry (example_node ''aten.Add'') = Inr True"
proof -
  have inv: "no_inplace_keys example_registry"
    by (simp add: no_inplace_keys_def example_registry_def endswith_def)
  have gate: "is_torch_fx_node_supported example_registry (example_node ''aten.Add'') = Inr True"
    "node_op (example_node ''add_'') = ''call_function''"
    "endswith (lower (node_target_name (example_node ''add_''))) ''_''"
    by (simp_all add: is_torch_fx_node_supported_def example_node_def lower_def lower_char_def
        endswith_def startswith_def contains_def example_registry_def)
  show ?thesis
    using inv gate contains_is_raw_lookup [of example_registry "''add''" "example_node ''add_''"]
      contains_is_raw_lookup [of example_registry "''add_''" "example_node ''add_''"]
    by (auto simp: example_registry_def endswith_def)
qed

text \<open>
  Claim C8 as stated fails at the key \<open>"add_"\<close>: its canonical name \<open>"add"\<close> is bound and
  \<open>get_func\<close> resolves it, but the containment query is false.
\<close>

theorem contains_canonicalized_counterexample:
  "\<not> contains example_registry ''add_'' \<and>
   name_to_func_mapping example_registry ''add'' = Some (example_func ''add'' 1) \<and>
   get_func example_registry ''add_'' = Some (example_func ''add'' 1)"
  by (simp add: contains_def get_func_def example_registry_def endswith_def startswith_def)

section \<open>Properties of a scan\<close>

subsection \<open>What a scan leaves of the block\<close>

lemma same_head_refl [simp]: "same_head p p"
  by (simp add: same_head_def)

lemma same_head_trans: "same_head p q \<Longrightarrow> same_head q r \<Longrightarrow> same_head p r"
  by (simp add: same_head_def)

lemma same_head_set_blocks [simp]: "same_head p (set_blocks p bs)"
  by (simp add: same_head_def)

lemma same_head_replace_var [simp]: "same_head p (replace_var_in_op old_var new_var p)"
  by (simp add: same_head_def)

lemma same_head_guarded: "same_head p q \<Longrightarrow> guarded outs q = guarded outs p"
  by (simp add: same_head_def guarded_def)

lemma list_all2_same_head_refl [simp]: "list_all2 same_head ops ops"
  by (simp add: list_all2_refl)

lemma list_all2_same_head_names:
  "list_all2 same_head ops ops' \<Longrightarrow> map op_name ops' = map op_name ops"
  by (induction rule: list_all2_induct) (simp_all add: same_head_def)

lemma list_all2_same_head_replace_uses:
  "list_all2 same_head (operations b)
     (operations (replace_uses_of_var_after_op b a old_var new_var))"
proof -
  let ?before = "ops_before_anchor (operations b) a"
  let ?after = "drop (length ?before) (operations b)"
  have "list_all2 same_head (?before @ ?after)
      (?before @ map (replace_var_in_op old_var new_var) ?after)"
    by (intro list_all2_appendI) (simp_all add: list_all2_map2 list_all2_refl)
  then show ?thesis
    unfolding ops_before_anchor_split operations_replace_uses .
qed

lemma operations_rewired:
  "operations (rewired b p iv ov) =
     filter (\<lambda>q. op_name q \<noteq> op_name p)
       (operations (replace_uses_of_var_after_op b (var_op iv) ov iv))"
  by (simp add: rewired_def remove_ops_def)

lemma block_outputs_rewired [simp]: "block_outputs (rewired b p iv ov) = block_outputs b"
  by (simp add: rewired_def remove_ops_def replace_uses_of_var_after_op_def Let_def)

lemma names_rewired:
  "map op_name (operations (rewired b p iv ov)) =
     filter (\<lambda>n. n \<noteq> op_name p) (map op_name (operations b))"
proof -
  have "map op_name (filter (\<lambda>q. op_name q \<noteq> op_name p) xs) =
      filter (\<lambda>n. n \<noteq> op_name p) (map op_name xs)" for xs
    by (induction xs) auto
  then show ?thesis
    unfolding operations_rewired by (simp add: map_op_name_replace_uses)
qed

lemma rewired_keeps:
  assumes "q \<in> set (operations b)" and "op_name q \<noteq> op_name p"
  shows "\<exists>q' \<in> set (operations (rewired b p iv ov)). same_head q q'"
proof -
  let ?ops' = "operations (replace_uses_of_var_after_op b (var_op iv) ov iv)"
  have "list_all2 same_head (operations b) ?ops'"
    by (rule list_all2_same_head_replace_uses)
  with assms(1) obtain q' where q': "q' \<in> set ?ops'" "same_head q q'"
    by (metis in_set_conv_nth list_all2_conv_all_nth)
  then have "op_name q' \<noteq> op_name p" using assms(2) by (simp add: same_head_def)
  with q' show ?thesis unfolding operations_rewired by auto
qed

text \<open>
  The result of a scan: the operations keep their names, types and outputs; a scan that
  reports no change returns them all, and a scan that reports a change has removed one
  operation that the matcher's guard does not cover, after rewiring.
\<close>

lemma scan_ops_result:
  "scan_ops conv self outs done ops = Inr (changed, b') \<Longrightarrow>
     \<exists>ops'. list_all2 same_head ops ops' \<and>
       (if changed
        then \<exists>p \<in> set ops'. \<not> guarded outs p \<and>
               (\<exists>iv ov. b' = rewired (Block (done @ ops') outs) p iv ov)
        else b' = Block (done @ ops') outs)"
proof (induction ops arbitrary: "done")
  case Nil
  then show ?case by auto
next
  case (Cons p rest)
  from scan_ops_step [OF Cons.prems] obtain bs' where
    alt: "scan_ops conv self outs (done @ [set_blocks p bs']) rest = Inr (changed, b') \<or>
      (bs' = [] \<and> changed \<and>
       (\<exists>f. match_pattern (set_blocks p bs') (Block (done @ set_blocks p bs' # rest) outs) =
               Inr (Some f) \<and>
            op_name p \<notin> ops_to_skip self \<and>
            f (set_blocks p bs') (Block (done @ set_blocks p bs' # rest) outs) =
               Inr (True, b')))"
    by blast
  let ?p' = "set_blocks p bs'"
  from alt show ?case
  proof
    assume "scan_ops conv self outs (done @ [?p']) rest = Inr (changed, b')"
    from Cons.IH [OF this] obtain ops'' where
      h: "list_all2 same_head rest ops''" and
      r: "if changed
        then \<exists>q \<in> set ops''. \<not> guarded outs q \<and>
               (\<exists>iv ov. b' = rewired (Block ((done @ [?p']) @ ops'') outs) q iv ov)
        else b' = Block ((done @ [?p']) @ ops'') outs"
      by blast
    have "list_all2 same_head (p # rest) (?p' # ops'')" using h by simp
    moreover have "if changed
        then \<exists>q \<in> set (?p' # ops''). \<not> guarded outs q \<and>
               (\<exists>iv ov. b' = rewired (Block (done @ ?p' # ops'') outs) q iv ov)
        else b' = Block (done @ ?p' # ops'') outs"
      using r by (cases changed) auto
    ultimately show ?thesis by blast
  next
    assume "bs' = [] \<and> changed \<and>
       (\<exists>f. match_pattern ?p' (Block (done @ ?p' # rest) outs) = Inr (Some f) \<and>
            op_name p \<notin> ops_to_skip self \<and>
            f ?p' (Block (done @ ?p' # rest) outs) = Inr (True, b'))"
    then obtain f where changed: changed and
      m: "match_pattern ?p' (Block (done @ ?p' # rest) outs) = Inr (Some f)" and
      r: "f ?p' (Block (done @ ?p' # rest) outs) = Inr (True, b')"
      by blast
    from match_pattern_Some [OF m] have u: "uniform f" and ng: "\<not> guarded outs ?p'"
      by (auto simp: guarded_def)
    from u r obtain iv ov where "b' = rewired (Block (done @ ?p' # rest) outs) ?p' iv ov"
      unfolding uniform_def by (metis Inr_inject prod.inject)
    with ng changed have "if changed
        then \<exists>q \<in> set (?p' # rest). \<not> guarded outs q \<and>
               (\<exists>iv ov. b' = rewired (Block (done @ ?p' # rest) outs) q iv ov)
        else b' = Block (done @ ?p' # rest) outs"
      by auto
    moreover have "list_all2 same_head (p # rest) (?p' # rest)" by simp
    ultimately show ?thesis by blast
  qed
qed

lemma noop_elimination_block_result:
  assumes "noop_elimination_block self b = Inr (changed, b')"
  shows "\<exists>ops'. list_all2 same_head (operations b) ops' \<and>
       (if changed
        then \<exists>p \<in> set ops'. \<not> guarded (block_outputs b) p \<and>
               (\<exists>iv ov. b' = rewired (Block ops' (block_outputs b)) p iv ov)
        else b' = Block ops' (block_outputs b))"
proof -
  have "scan_ops (noop_elimination_converge self) self (block_outputs b) [] (operations b) =
      Inr (changed, b')"
    using assms by (simp add: noop_elimination_block_def noop_elimination_block_body_def)
  from scan_ops_result [OF this] show ?thesis by (simp cong: if_cong)
qed

lemma distinct_map_eq:
  "distinct (map f xs) \<Longrightarrow> x \<in> set xs \<Longrightarrow> y \<in> set xs \<Longrightarrow> f x = f y \<Longrightarrow> x = y"
  by (meson distinct_map inj_on_def)

lemma length_filter_distinct_name:
  "distinct (map f xs) \<Longrightarrow> x \<in> set xs \<Longrightarrow>
     Suc (length (filter (\<lambda>n. n \<noteq> f x) (map f xs))) = length xs"
proof (induction xs)
  case Nil
  then show ?case by simp
next
  case (Cons a xs)
  show ?case
  proof (cases "f a = f x")
    case True
    then have "f x \<notin> set (map f xs)" using Cons.prems(1) by simp
    then have "filter (\<lambda>n. n \<noteq> f x) (map f xs) = map f xs"
      by (intro filter_True ballI) blast
    with True show ?thesis by simp
  next
    case False
    with Cons show ?thesis by auto
  qed
qed

lemma length_filter_name_less:
  "x \<in> set xs \<Longrightarrow> length (filter (\<lambda>n. n \<noteq> f x) (map f xs)) < length xs"
proof -
  assume "x \<in> set xs"
  then have "f x \<in> set (map f xs)" by simp
  then have "length (filter (\<lambda>n. n \<noteq> f x) (map f xs)) < length (map f xs)"
    by (intro length_filter_less [of "f x"]) simp_all
  then show ?thesis by simp
qed

text \<open>One scan of a block with distinct operation names.\<close>

lemma noop_elimination_block_keeps:
  assumes run: "noop_elimination_block self b = Inr (changed, b')"
  shows "block_outputs b' = block_outputs b"
    and "length (operations b') \<le> length (operations b)"
    and "changed \<Longrightarrow> length (operations b') < length (operations b)"
    and "\<not> changed \<Longrightarrow> map op_name (operations b') = map op_name (operations b)"
    and "distinct (map op_name (operations b)) \<Longrightarrow> distinct (map op_name (operations b'))"
    and "distinct (map op_name (operations b)) \<Longrightarrow> changed \<Longrightarrow>
           Suc (length (operations b')) = length (operations b)"
    and "distinct (map op_name (operations b)) \<Longrightarrow> q \<in> set (operations b) \<Longrightarrow>
           guarded (block_outputs b) q \<Longrightarrow> \<exists>q' \<in> set (operations b'). same_head q q'"
proof -
  from noop_elimination_block_result [OF run] obtain ops' where
    h: "list_all2 same_head (operations b) ops'" and
    r: "if changed
        then \<exists>p \<in> set ops'. \<not> guarded (block_outputs b) p \<and>
               (\<exists>iv ov. b' = rewired (Block ops' (block_outputs b)) p iv ov)
        else b' = Block ops' (block_outputs b)"
    by blast
  note names = list_all2_same_head_names [OF h]
  have len: "length ops' = length (operations b)" using h by (simp add: list_all2_lengthD)
  show "block_outputs b' = block_outputs b" using r by (cases changed) auto
  show lt: "changed \<Longrightarrow> length (operations b') < length (operations b)"
  proof -
    assume changed
    with r obtain p iv ov where p: "p \<in> set ops'" and
      b': "b' = rewired (Block ops' (block_outputs b)) p iv ov" by auto
    have "length (operations b') = length (map op_name (operations b'))" by simp
    also have "\<dots> = length (filter (\<lambda>n. n \<noteq> op_name p) (map op_name ops'))"
      unfolding b' names_rewired by simp
    also have "\<dots> < length ops'" using p by (rule length_filter_name_less)
    finally show ?thesis using len by simp
  qed
  show eq: "\<not> changed \<Longrightarrow> map op_name (operations b') = map op_name (operations b)"
    using r names by simp
  show "length (operations b') \<le> length (operations b)"
  proof (cases changed)
    case True
    with lt show ?thesis by simp
  next
    case False
    with r len show ?thesis by simp
  qed
  show "distinct (map op_name (operations b)) \<Longrightarrow> distinct (map op_name (operations b'))"
  proof (cases changed)
    case True
    assume d: "distinct (map op_name (operations b))"
    from True r obtain p iv ov where
      b': "b' = rewired (Block ops' (block_outputs b)) p iv ov" by auto
    show ?thesis unfolding b' names_rewired using d names by simp
  next
    case False
    assume "distinct (map op_name (operations b))"
    with eq [OF False] show ?thesis by simp
  qed
  show "distinct (map op_name (operations b)) \<Longrightarrow> changed \<Longrightarrow>
           Suc (length (operations b')) = length (operations b)"
  proof -
    assume d: "distinct (map op_name (operations b))" and changed
    with r obtain p iv ov where p: "p \<in> set ops'" and
      b': "b' = rewired (Block ops' (block_outputs b)) p iv ov" by auto
    have d': "distinct (map op_name ops')" using d names by simp
    have "length (operations b') = length (map op_name (operations b'))" by simp
    also have "\<dots> = length (filter (\<lambda>n. n \<noteq> op_name p) (map op_name ops'))"
      unfolding b' names_rewired by simp
    finally show ?thesis using length_filter_distinct_name [OF d' p] len by simp
  qed
  show "distinct (map op_name (operations b)) \<Longrightarrow> q \<in> set (operations b) \<Longrightarrow>
           guarded (block_outputs b) q \<Longrightarrow> \<exists>q' \<in> set (operations b'). same_head q q'"
  proof -
    assume d: "distinct (map op_name (operations b))" and q: "q \<in> set (operations b)"
      and g: "guarded (block_outputs b) q"
    from h q obtain q1 where q1: "q1 \<in> set ops'" "same_head q q1"
      by (metis in_set_conv_nth list_all2_conv_all_nth)
    show ?thesis
    proof (cases changed)
      case False
      with r q1 show ?thesis by auto
    next
      case True
      with r obtain p iv ov where p: "p \<in> set ops'" and
        ng: "\<not> guarded (block_outputs b) p" and
        b': "b' = rewired (Block ops' (block_outputs b)) p iv ov" by auto
      have "guarded (block_outputs b) q1" using g q1(2) by (simp add: same_head_guarded)
      with ng have "q1 \<noteq> p" by auto
      moreover have "distinct (map op_name ops')" using d names by simp
      ultimately have "op_name q1 \<noteq> op_name p"
        using distinct_map_eq [of op_name ops' q1 p] q1(1) p by auto
      with q1(1) have "\<exists>q' \<in> set (operations b'). same_head q1 q'"
        unfolding b' by (intro rewired_keeps) simp_all
      with q1(2) show ?thesis by (blast intro: same_head_trans)
    qed
  qed
qed

section \<open>Properties of the fixed-point loop\<close>

text \<open>The loop as the source writes it, over \<open>_noop_elimination_block\<close>.\<close>

lemma noop_elimination_converge_unfold:
  "noop_elimination_converge self block =
     (case noop_elimination_block self block of
        Inl e \<Rightarrow> Inl e
      | Inr (block_changed, block') \<Rightarrow>
          if block_changed then noop_elimination_converge self block' else Inr block')"
  by (subst noop_elimination_converge.simps) (simp add: noop_elimination_block_def)

lemma converge_cases:
  assumes "noop_elimination_converge self b = Inr b'"
  obtains (changed) y where "noop_elimination_block self b = Inr (True, y)"
      and "noop_elimination_converge self y = Inr b'"
    | (unchanged) "noop_elimination_block self b = Inr (False, b')"
proof -
  from assms obtain c y where body: "noop_elimination_block self b = Inr (c, y)"
    by (subst (asm) noop_elimination_converge_unfold) (auto split: sum.splits)
  show thesis
  proof (cases c)
    case True
    with assms body have "noop_elimination_converge self y = Inr b'"
      by (subst (asm) noop_elimination_converge_unfold) simp
    with True body show thesis by (intro changed) simp_all
  next
    case False
    with assms body have "b' = y"
      by (subst (asm) noop_elimination_converge_unfold) simp
    with False body show thesis by (intro unchanged) simp
  qed
qed

lemma converge_num_ops:
  "noop_elimination_converge self b = Inr b' \<Longrightarrow> num_ops b' \<le> num_ops b"
proof (induction self b arbitrary: b' rule: noop_elimination_converge.induct)
  case (1 self block)
  have nested: "\<And>p b b'. p \<in> set (operations block) \<Longrightarrow> b \<in> set (blocks p) \<Longrightarrow>
      noop_elimination_converge self b = Inr b' \<Longrightarrow> num_ops b' \<le> num_ops b"
    by (rule "1.IH"(1))
  from "1.prems" show ?case
  proof (cases rule: converge_cases)
    case (changed y)
    then have body: "noop_elimination_block_body (noop_elimination_converge self) self block =
        Inr (True, y)"
      by (simp add: noop_elimination_block_def)
    from noop_elimination_block_body_num_ops [OF nested body]
    have "num_ops y < num_ops block" by simp
    moreover have "num_ops b' \<le> num_ops y"
      using "1.IH"(2) [OF body refl] changed(2) by simp
    ultimately show ?thesis by simp
  next
    case unchanged
    then have body: "noop_elimination_block_body (noop_elimination_converge self) self block =
        Inr (False, b')"
      by (simp add: noop_elimination_block_def)
    from noop_elimination_block_body_num_ops [OF nested body] show ?thesis by simp
  qed
qed

lemma noop_elimination_block_num_ops:
  assumes "noop_elimination_block self b = Inr (changed, b')"
  shows "num_ops b' \<le> num_ops b" and "changed \<Longrightarrow> num_ops b' < num_ops b"
proof -
  have body: "noop_elimination_block_body (noop_elimination_converge self) self b =
      Inr (changed, b')"
    using assms by (simp add: noop_elimination_block_def)
  have "num_ops b' \<le> num_ops b \<and> (changed \<longrightarrow> num_ops b' < num_ops b)"
    by (rule noop_elimination_block_body_num_ops [OF _ body]) (rule converge_num_ops)
  then show "num_ops b' \<le> num_ops b" and "changed \<Longrightarrow> num_ops b' < num_ops b"
    by simp_all
qed



text \<open>A second scan of what a scan without change has left.\<close>

lemma for_blocks_again:
  "(\<And>b b'. b \<in> set bs \<Longrightarrow> conv b = Inr b' \<Longrightarrow> conv b' = Inr b') \<Longrightarrow>
   for_blocks conv bs = Inr bs' \<Longrightarrow> for_blocks conv bs' = Inr bs'"
proof (induction bs arbitrary: bs')
  case Nil
  then show ?case by simp
next
  case (Cons b bs)
  from Cons.prems(2) obtain b' bs'' where
    b': "conv b = Inr b'" and rest: "for_blocks conv bs = Inr bs''" and eq: "bs' = b' # bs''"
    by (auto split: sum.splits)
  have "conv b' = Inr b'" by (rule Cons.prems(1) [OF _ b']) simp
  moreover have "for_blocks conv bs'' = Inr bs''"
    using Cons.prems(1) rest by (intro Cons.IH) auto
  ultimately show ?case by (simp add: eq)
qed

lemma scan_ops_step_unchanged:
  assumes "scan_ops conv self outs done (p # rest) = Inr (False, b')"
  shows "\<exists>bs'. for_blocks conv (blocks p) = Inr bs' \<and>
     scan_ops conv self outs (done @ [set_blocks p bs']) rest = Inr (False, b') \<and>
     (bs' \<noteq> [] \<or>
      (\<exists>m. match_pattern (set_blocks p bs') (Block (done @ set_blocks p bs' # rest) outs) = Inr m \<and>
         (case m of
            None \<Rightarrow> True
          | Some f \<Rightarrow> op_name p \<in> ops_to_skip self \<or>
              (\<exists>bx. f (set_blocks p bs') (Block (done @ set_blocks p bs' # rest) outs) =
                 Inr (False, bx)))))"
  using assms by (auto simp: Let_def split: sum.splits option.splits if_splits)

lemma scan_ops_again:
  assumes "\<And>p b b'. p \<in> set ops \<Longrightarrow> b \<in> set (blocks p) \<Longrightarrow> conv b = Inr b' \<Longrightarrow>
      conv b' = Inr b'"
    and "scan_ops conv self outs done ops = Inr (False, b')"
  shows "\<exists>ops'. b' = Block (done @ ops') outs \<and>
     (\<forall>d. scan_ops conv self outs d ops' = Inr (False, Block (d @ ops') outs))"
  using assms
proof (induction ops arbitrary: "done")
  case Nil
  then show ?case by auto
next
  case (Cons p rest)
  from scan_ops_step_unchanged [OF Cons.prems(2)] obtain bs' where
    fb: "for_blocks conv (blocks p) = Inr bs'" and
    rec: "scan_ops conv self outs (done @ [set_blocks p bs']) rest = Inr (False, b')" and
    why: "bs' \<noteq> [] \<or>
      (\<exists>m. match_pattern (set_blocks p bs') (Block (done @ set_blocks p bs' # rest) outs) = Inr m \<and>
         (case m of
            None \<Rightarrow> True
          | Some f \<Rightarrow> op_name p \<in> ops_to_skip self \<or>
              (\<exists>bx. f (set_blocks p bs') (Block (done @ set_blocks p bs' # rest) outs) =
                 Inr (False, bx))))"
    by blast
  let ?p' = "set_blocks p bs'"
  have "\<exists>ops'. b' = Block ((done @ [?p']) @ ops') outs \<and>
     (\<forall>d. scan_ops conv self outs d ops' = Inr (False, Block (d @ ops') outs))"
    using Cons.prems(1) rec by (intro Cons.IH) auto
  then obtain ops'' where b': "b' = Block (done @ ?p' # ops'') outs" and
    again: "\<And>d. scan_ops conv self outs d ops'' = Inr (False, Block (d @ ops'') outs)"
    by auto
  have fb': "for_blocks conv (blocks ?p') = Inr bs'"
    using Cons.prems(1) fb by (simp, intro for_blocks_again [of "blocks p"]) auto
  have "scan_ops conv self outs d (?p' # ops'') = Inr (False, Block (d @ ?p' # ops'') outs)" for d
  proof (cases "bs' = []")
    case False
    then show ?thesis using fb' again [of "d @ [?p']"] by (simp add: set_blocks_def)
  next
    case True
    with why obtain m where
      m: "match_pattern ?p' (Block (done @ ?p' # rest) outs) = Inr m" and
      c: "case m of
            None \<Rightarrow> True
          | Some f \<Rightarrow> op_name p \<in> ops_to_skip self \<or>
              (\<exists>bx. f ?p' (Block (done @ ?p' # rest) outs) = Inr (False, bx))"
      by blast
    have m': "match_pattern ?p' (Block (d @ ?p' # ops'') outs) = Inr m"
      using m match_pattern_outs [of "Block (d @ ?p' # ops'') outs" "Block (done @ ?p' # rest) outs" ?p']
      by simp
    show ?thesis
    proof (cases m)
      case None
      with m' True fb' again [of "d @ [?p']"] show ?thesis by (simp add: set_blocks_def)
    next
      case (Some f)
      show ?thesis
      proof (cases "op_name p \<in> ops_to_skip self")
        case skip: True
        with Some m' True fb' again [of "d @ [?p']"] show ?thesis by (simp add: set_blocks_def)
      next
        case noskip: False
        with c Some obtain bx where
          "f ?p' (Block (done @ ?p' # rest) outs) = Inr (False, bx)" by auto
        moreover have "uniform f" using match_pattern_Some [of ?p' _ f] m Some by simp
        ultimately have "f ?p' (Block (d @ ?p' # ops'') outs) =
            Inr (False, Block (d @ ?p' # ops'') outs)"
          unfolding uniform_def by blast
        with noskip Some m' True fb' again [of "d @ [?p']"] show ?thesis
          by (simp add: set_blocks_def)
      qed
    qed
  qed
  with b' show ?case by blast
qed

lemma converge_fixpoint:
  "noop_elimination_converge self b = Inr b' \<Longrightarrow>
     noop_elimination_block self b' = Inr (False, b') \<and>
     noop_elimination_converge self b' = Inr b'"
proof (induction self b arbitrary: b' rule: noop_elimination_converge.induct)
  case (1 self block)
  from "1.prems" show ?case
  proof (cases rule: converge_cases)
    case (changed y)
    then have body: "noop_elimination_block_body (noop_elimination_converge self) self block =
        Inr (True, y)"
      by (simp add: noop_elimination_block_def)
    from "1.IH"(2) [OF body refl _ changed(2)] show ?thesis by simp
  next
    case unchanged
    then have scan: "scan_ops (noop_elimination_converge self) self (block_outputs block) []
        (operations block) = Inr (False, b')"
      by (simp add: noop_elimination_block_def noop_elimination_block_body_def)
    have idem: "\<And>p b b'. p \<in> set (operations block) \<Longrightarrow> b \<in> set (blocks p) \<Longrightarrow>
        noop_elimination_converge self b = Inr b' \<Longrightarrow> noop_elimination_converge self b' = Inr b'"
      using "1.IH"(1) by blast
    have "\<exists>ops'. b' = Block ([] @ ops') (block_outputs block) \<and>
        (\<forall>d. scan_ops (noop_elimination_converge self) self (block_outputs block) d ops' =
          Inr (False, Block (d @ ops') (block_outputs block)))"
      by (rule scan_ops_again [OF _ scan]) (rule idem)
    then obtain ops' where
      b': "b' = Block ops' (block_outputs block)" and
      again: "\<And>d. scan_ops (noop_elimination_converge self) self (block_outputs block) d ops' =
          Inr (False, Block (d @ ops') (block_outputs block))"
      by auto
    have blk: "noop_elimination_block self b' = Inr (False, b')"
      using again [of "[]"]
      by (simp add: b' noop_elimination_block_def noop_elimination_block_body_def)
    then have "noop_elimination_converge self b' = Inr b'"
      by (subst noop_elimination_converge_unfold) simp
    with blk show ?thesis by simp
  qed
qed

lemma apply_functions_names:
  "apply_functions self fs = Inr fs' \<Longrightarrow> map fst fs' = map fst fs"
  by (induction self fs arbitrary: fs' rule: apply_functions.induct)
     (auto split: sum.splits)

lemma apply_functions_again:
  "apply_functions self fs = Inr fs' \<Longrightarrow>
     apply_functions self fs' = Inr fs' \<and>
     (\<forall>(n, f) \<in> set fs'. noop_elimination_block self f = Inr (False, f))"
proof (induction self fs arbitrary: fs' rule: apply_functions.induct)
  case (1 self)
  then show ?case by simp
next
  case (2 self name f fs)
  from "2.prems" obtain f' fs'' where
    f': "noop_elimination_converge self f = Inr f'" and
    rest: "apply_functions self fs = Inr fs''" and eq: "fs' = (name, f') # fs''"
    by (auto split: sum.splits)
  from converge_fixpoint [OF f'] "2.IH" [OF f' rest] show ?case
    by (simp add: eq)
qed


section \<open>The block-output guard at every nesting depth\<close>



text \<open>
  What the guard protects in a block, nested blocks included: the declared outputs of each
  block and the name, type and outputs of each guarded operation, each with the path to
  its block.
\<close>

datatype kept_item = Declared "var list" | Guarded string string "var list"

fun kept_items_op :: "op \<Rightarrow> ((string \<times> nat) list \<times> kept_item) set"
  and kept_items :: "block \<Rightarrow> ((string \<times> nat) list \<times> kept_item) set" where
  "kept_items_op (Op n t ins outs bs) =
     (\<Union>i \<in> {..<length bs}. (\<lambda>(path, k). ((n, i) # path, k)) ` (map kept_items bs ! i))"
| "kept_items (Block ops outs) =
     insert ([], Declared outs)
       ((\<lambda>p. ([], Guarded (op_name p) (op_type p) (outputs p))) ` {p \<in> set ops. guarded outs p} \<union>
        (\<Union>p \<in> set ops. kept_items_op p))"


definition keeps :: "block \<Rightarrow> block \<Rightarrow> bool" where
  "keeps b b' = (well_named b' \<and> kept_items b \<subseteq> kept_items b')"

lemma keeps_refl: "well_named b \<Longrightarrow> keeps b b"
  by (simp add: keeps_def)














lemma block_outputs_replace_uses [simp]:
  "block_outputs (replace_uses_of_var_after_op b a old_var new_var) = block_outputs b"
  by (simp add: replace_uses_of_var_after_op_def Let_def)

















section \<open>Properties of the elimination pass\<close>

subsection \<open>The elementwise strategy\<close>

lemmas example_graph_defs =
  mk_var_def fp32_2x2_def fp32_scalar_def v_in_def v1_def v2_def v3_def zeros_2x2_def
  two_scalar_def op1_def op2_def op3_def op3_rewired_def example_block_def
  example_block_done_def

lemma remove_elementwise_binary_eq:
  assumes "map_of (inputs p) ''x'' = Some vx" and "map_of (inputs p) ''y'' = Some vy"
    and "outputs p = out # rest"
  shows "remove_elementwise_binary p b cx cy =
     (case (if (case cx of None \<Rightarrow> False | Some c \<Rightarrow> is_identity_const vx c) then Some vy
            else if (case cy of None \<Rightarrow> False | Some c \<Rightarrow> is_identity_const vy c) then Some vx
            else None) of
        None \<Rightarrow> Inr (False, b)
      | Some s \<Rightarrow> if sym_type s = sym_type out then Inr (True, rewired b p s out)
                  else Inr (False, b))"
  by (simp add: remove_elementwise_binary_def const_equals_def get_input_def first_output_def
      bind_result_def redirect_and_remove_eq is_identity_const_def assms split: option.splits)

lemma remove_elementwise_eq:
  assumes "map_of (inputs p) ''x'' = Some vx" and "map_of (inputs p) ''y'' = Some vy"
    and "outputs p = out # rest"
  shows "remove_elementwise p b =
     (case surviving_operand (op_type p) vx vy of
        None \<Rightarrow> Inr (False, b)
      | Some s \<Rightarrow> if sym_type s = sym_type out then Inr (True, rewired b p s out)
                  else Inr (False, b))"
proof -
  note bin = remove_elementwise_binary_eq [OF assms]
  consider (add) "op_type p = ''add''" | (mul) "op_type p = ''mul''"
    | (fdiv) "op_type p = ''floor_div''" | (pow) "op_type p = ''pow''"
    | (rdiv) "op_type p = ''real_div''" | (sub) "op_type p = ''sub''"
    | (other) "op_type p \<notin> {''add'', ''mul'', ''floor_div'', ''pow'', ''real_div'', ''sub''}"
    by auto
  then show ?thesis
  proof cases
    case other
    then show ?thesis by (simp add: remove_elementwise_def surviving_operand_def)
  qed (simp_all add: remove_elementwise_def surviving_operand_def identity_element_def bin)
qed

lemma spec_identity_removable_eq:
  assumes "map_of (inputs p) ''x'' = Some vx" and "map_of (inputs p) ''y'' = Some vy"
    and "outputs p = out # rest"
  shows "spec_identity_removable p \<longleftrightarrow>
     (op_type p \<in> {''add'', ''mul''} \<and> is_identity_const vx (identity_element (op_type p)) \<and>
        sym_type vy = sym_type out) \<or>
     (op_type p \<in> {''add'', ''mul'', ''sub'', ''real_div'', ''floor_div'', ''pow''} \<and>
        is_identity_const vy (identity_element (op_type p)) \<and> sym_type vx = sym_type out)"
  by (auto simp: spec_identity_removable_def allowed_sides_def assms)

text \<open>
  Claim C1, as amended. For an elementwise operation with operands \<open>x\<close>, \<open>y\<close> and an
  output, the strategy tests the left operand first (for add and mul only), then the right
  operand; the first that is a constant equal to the identity element is dropped and the
  other operand survives. The operation is removed, with the uses of its output after the
  survivor's producer redirected to the survivor, exactly when such an operand exists and
  the survivor's type equals the output's type; otherwise the strategy returns \<open>False\<close> and
  the block is unchanged. A removal implies the specification's condition; a failure of
  that condition implies a decline; and the two agree unless both operands are identity
  constants.
\<close>

theorem remove_elementwise_first_identity:
  assumes "map_of (inputs p) ''x'' = Some vx" and "map_of (inputs p) ''y'' = Some vy"
    and "outputs p = out # rest"
  shows "remove_elementwise p b =
           (case surviving_operand (op_type p) vx vy of
              None \<Rightarrow> Inr (False, b)
            | Some s \<Rightarrow>
                if sym_type s = sym_type out
                then Inr (True,
                       remove_ops (replace_uses_of_var_after_op b (var_op s) out s) [p])
                else Inr (False, b)) \<and>
         ((\<exists>b'. remove_elementwise p b = Inr (True, b')) \<longrightarrow> spec_identity_removable p) \<and>
         (\<not> spec_identity_removable p \<longrightarrow> remove_elementwise p b = Inr (False, b)) \<and>
         (\<not> (is_identity_const vx (identity_element (op_type p)) \<and>
             is_identity_const vy (identity_element (op_type p))) \<longrightarrow>
            spec_identity_removable p = (\<exists>b'. remove_elementwise p b = Inr (True, b')))"
proof -
  note eq = remove_elementwise_eq [OF assms, of b, unfolded rewired_def]
  note spec = spec_identity_removable_eq [OF assms]
  have 1: "(\<exists>b'. remove_elementwise p b = Inr (True, b')) \<longrightarrow> spec_identity_removable p"
    unfolding eq spec by (auto simp: surviving_operand_def split: option.splits if_splits)
  have 2: "\<not> spec_identity_removable p \<longrightarrow> remove_elementwise p b = Inr (False, b)"
    unfolding eq spec by (auto simp: surviving_operand_def split: option.splits if_splits)
  have 3: "\<not> (is_identity_const vx (identity_element (op_type p)) \<and>
             is_identity_const vy (identity_element (op_type p))) \<longrightarrow>
            spec_identity_removable p = (\<exists>b'. remove_elementwise p b = Inr (True, b'))"
    unfolding eq spec by (auto simp: surviving_operand_def split: option.splits if_splits)
  from eq 1 2 3 show ?thesis by blast
qed

text \<open>
  The theorem of C1 on \<open>%1 = relu(input); %2 = add(%1, zeros); %3 = mul(%2, 2)\<close>: the
  add is removed and the mul reads \<open>%1\<close>; the mul by 2 is declined.
\<close>

theorem remove_elementwise_first_identity_witness:
  "remove_elementwise op2 example_block = Inr (True, example_block_done) \<and>
   spec_identity_removable op2 \<and>
   remove_elementwise op3 example_block = Inr (False, example_block) \<and>
   \<not> spec_identity_removable op3"
proof -
  have a: "map_of (inputs op2) ''x'' = Some v1" "map_of (inputs op2) ''y'' = Some zeros_2x2"
    "outputs op2 = v2 # []"
    by (simp_all add: op2_def)
  have b: "map_of (inputs op3) ''x'' = Some v2" "map_of (inputs op3) ''y'' = Some two_scalar"
    "outputs op3 = v3 # []"
    by (simp_all add: op3_def)
  have s2: "surviving_operand (op_type op2) v1 zeros_2x2 = Some v1"
    by (simp add: surviving_operand_def is_identity_const_def identity_element_def np_all_eq_def
        example_graph_defs)
  have s3: "surviving_operand (op_type op3) v2 two_scalar = None"
    by (simp add: surviving_operand_def is_identity_const_def identity_element_def np_all_eq_def
        example_graph_defs)
  have r: "remove_ops (replace_uses_of_var_after_op example_block (var_op v1) v2 v1) [op2] =
      example_block_done"
    by (simp add: remove_ops_def replace_uses_of_var_after_op_def ops_before_anchor_def
        example_graph_defs)
  have ty: "sym_type v1 = sym_type v2" by (simp add: example_graph_defs)
  have n2: "\<not> is_identity_const v1 (identity_element (op_type op2))"
    and n3: "\<not> is_identity_const v2 (identity_element (op_type op3))"
    by (simp_all add: is_identity_const_def example_graph_defs)
  from remove_elementwise_first_identity [OF a, of example_block]
    remove_elementwise_first_identity [OF b, of example_block]
  show ?thesis
    by (auto simp: s2 s3 r ty n2 n3)
qed

text \<open>
  Claim C1 as stated fails on \<open>add(zeros, zero)\<close> with a left operand of the output's
  type and a scalar right operand: the right operand is a constant 0 and the left operand's
  type is the output's, yet the strategy tests the left operand first, takes the scalar as
  survivor and declines on the type mismatch.
\<close>

theorem remove_elementwise_both_identity_counterexample:
  "spec_identity_removable op_both_zero \<and>
   remove_elementwise op_both_zero (Block [op_both_zero] []) =
     Inr (False, Block [op_both_zero] [])"
proof -
  have a: "map_of (inputs op_both_zero) ''x'' = Some zeros_2x2"
    "map_of (inputs op_both_zero) ''y'' = Some zero_scalar" "outputs op_both_zero = v2 # []"
    by (simp_all add: op_both_zero_def)
  have "spec_identity_removable op_both_zero"
    unfolding spec_identity_removable_eq [OF a]
    by (simp add: is_identity_const_def identity_element_def np_all_eq_def example_graph_defs
        zero_scalar_def op_both_zero_def)
  moreover have "remove_elementwise op_both_zero (Block [op_both_zero] []) =
     Inr (False, Block [op_both_zero] [])"
    unfolding remove_elementwise_eq [OF a]
    by (simp add: surviving_operand_def is_identity_const_def identity_element_def np_all_eq_def
        example_graph_defs zero_scalar_def op_both_zero_def)
  ultimately show ?thesis by simp
qed


subsection \<open>The transpose strategy\<close>

lemmas transpose_example_defs =
  int32_3_def perm_var_def example_transpose_def example_transpose_block_def

lemma sort_differs_iff: "xs \<noteq> sort xs \<longleftrightarrow> \<not> sorted xs"
  by (metis sorted_sort sorted_sort_id)

lemma remove_transpose_eq:
  assumes "map_of (inputs p) ''perm'' = Some pvar" and "val pvar = Some pv"
    and "map_of (inputs p) ''x'' = Some x" and "outputs p = out # rest"
  shows "remove_transpose p b =
     (if sorted (normalize_perm pv) then Inr (True, rewired b p x out) else Inr (False, b))"
  by (simp add: remove_transpose_def get_input_def first_output_def bind_result_def
      redirect_and_remove_eq Let_def sort_differs_iff assms)

text \<open>
  Claim C5. For a transpose with a constant permutation, an input \<open>x\<close> and an output, the
  strategy maps each negative index \<open>q\<close> of the permutation to \<open>q + len(perm)\<close> and removes the
  operation, redirecting the uses of its output to \<open>x\<close>, if and only if the normalised
  permutation is sorted in ascending order. The permutation (1,0,2) is declined; (0,1,2)
  and (-3,-2,-1), which normalises to (0,1,2), are removed.
\<close>

theorem remove_transpose_sorted_perm:
  assumes "map_of (inputs p) ''perm'' = Some pvar" and "val pvar = Some pv"
    and "map_of (inputs p) ''x'' = Some x" and "outputs p = out # rest"
  shows "normalize_perm pv = map (\<lambda>q. if q < 0 then q + of_nat (length pv) else q) pv \<and>
         remove_transpose p b =
           (if sorted (normalize_perm pv)
            then Inr (True, remove_ops (replace_uses_of_var_after_op b (var_op x) out x) [p])
            else Inr (False, b)) \<and>
         (pv = [1, 0, 2] \<longrightarrow> remove_transpose p b = Inr (False, b)) \<and>
         (pv = [0, 1, 2] \<or> pv = [- 3, - 2, - 1] \<longrightarrow>
            normalize_perm pv = [0, 1, 2] \<and>
            remove_transpose p b =
              Inr (True, remove_ops (replace_uses_of_var_after_op b (var_op x) out x) [p]))"
proof -
  note eq = remove_transpose_eq [OF assms, of b, unfolded rewired_def]
  have n: "normalize_perm pv = map (\<lambda>q. if q < 0 then q + of_nat (length pv) else q) pv"
    unfolding normalize_perm_def by (rule map_cong) auto
  have a: "pv = [1, 0, 2] \<longrightarrow> remove_transpose p b = Inr (False, b)"
    unfolding eq by (simp add: normalize_perm_def)
  have b: "pv = [0, 1, 2] \<or> pv = [- 3, - 2, - 1] \<longrightarrow>
            normalize_perm pv = [0, 1, 2] \<and>
            remove_transpose p b =
              Inr (True, remove_ops (replace_uses_of_var_after_op b (var_op x) out x) [p])"
    unfolding eq by (auto simp: normalize_perm_def)
  from n eq a b show ?thesis by blast
qed

text \<open>
  The theorem of C5 on \<open>%1 = relu(input); %2 = transpose(%1, perm); %3 = mul(%2, 2)\<close> for
  the three permutations of the claim.
\<close>

theorem remove_transpose_sorted_perm_witness:
  "remove_transpose (example_transpose [1, 0, 2]) (example_transpose_block [1, 0, 2]) =
     Inr (False, example_transpose_block [1, 0, 2]) \<and>
   remove_transpose (example_transpose [0, 1, 2]) (example_transpose_block [0, 1, 2]) =
     Inr (True, example_block_done) \<and>
   remove_transpose (example_transpose [- 3, - 2, - 1]) (example_transpose_block [- 3, - 2, - 1]) =
     Inr (True, example_block_done)"
proof -
  have a: "map_of (inputs (example_transpose pv)) ''perm'' = Some (perm_var pv)"
    "val (perm_var pv) = Some pv"
    "map_of (inputs (example_transpose pv)) ''x'' = Some v1"
    "outputs (example_transpose pv) = v2 # []" for pv
    by (simp_all add: transpose_example_defs mk_var_def)
  have r: "remove_ops (replace_uses_of_var_after_op (example_transpose_block pv) (var_op v1) v2 v1)
      [example_transpose pv] = example_block_done" for pv
    by (simp add: remove_ops_def replace_uses_of_var_after_op_def ops_before_anchor_def
        transpose_example_defs example_graph_defs)
  from remove_transpose_sorted_perm [OF a, of "[1, 0, 2]" "example_transpose_block [1, 0, 2]"]
    remove_transpose_sorted_perm [OF a, of "[0, 1, 2]" "example_transpose_block [0, 1, 2]"]
    remove_transpose_sorted_perm [OF a, of "[- 3, - 2, - 1]" "example_transpose_block [- 3, - 2, - 1]"]
  show ?thesis by (simp add: r)
qed

subsection \<open>The pass on the examples\<close>

lemmas pass_eval_defs =
  noop_elimination_block_def noop_elimination_block_body_def match_pattern_def
  first_output_def get_input_def bind_result_def SUPPORTED_OPS_def op_to_removal_fn_def
  remove_elementwise_def remove_elementwise_binary_def remove_same_shape_def
  const_equals_def np_all_eq_def redirect_and_remove_def remove_ops_def
  replace_uses_of_var_after_op_def ops_before_anchor_def init_pass_def set_blocks_def Let_def

lemma example_block_scan:
  "noop_elimination_block init_pass example_block = Inr (True, example_block_done)"
  by (simp add: pass_eval_defs example_graph_defs)

lemma example_block_done_scan:
  "noop_elimination_block init_pass example_block_done = Inr (False, example_block_done)"
  by (simp add: pass_eval_defs example_graph_defs)

lemma example_block_converge:
  "noop_elimination_converge init_pass example_block = Inr example_block_done"
  by (simp add: noop_elimination_converge_unfold [of _ example_block]
      noop_elimination_converge_unfold [of _ example_block_done]
      example_block_scan example_block_done_scan)


lemmas nested_example_defs =
  v_n1_def v_n2_def v_c_def nested_body_def nested_body_done_def

lemma nested_body_scan:
  "noop_elimination_block init_pass nested_body = Inr (True, nested_body_done)"
  by (simp add: pass_eval_defs example_graph_defs nested_example_defs)

lemma nested_body_done_scan:
  "noop_elimination_block init_pass nested_body_done = Inr (False, nested_body_done)"
  by (simp add: pass_eval_defs example_graph_defs nested_example_defs)

lemma nested_body_converge:
  "noop_elimination_converge init_pass nested_body = Inr nested_body_done"
  by (simp add: noop_elimination_converge_unfold [of _ nested_body]
      noop_elimination_converge_unfold [of _ nested_body_done]
      nested_body_scan nested_body_done_scan)

lemma example_nested_scan:
  "noop_elimination_block init_pass example_nested = Inr (False, example_nested_done)"
  by (simp add: example_nested_def example_nested_done_def pass_eval_defs
      nested_body_converge [unfolded init_pass_def] op1_def v1_def v_c_def v_in_def mk_var_def fp32_2x2_def)

lemma example_nested_converge:
  "noop_elimination_converge init_pass example_nested = Inr example_nested_done"
  by (simp add: noop_elimination_converge_unfold [of _ example_nested] example_nested_scan)


subsection \<open>Guard, termination and idempotence\<close>











text \<open>
  Claim C3. The loop is a total function that satisfies the equation of the source's
  \<open>while block_changed\<close>. A scan that reports a change has removed an operation of the
  block: the total operation count and the length of the block's operation list strictly
  decrease (by exactly one when the operation names are distinct). A scan that reports no
  change ends the loop with the block it leaves, which has as many operations. The loop
  never increases the operation count, and \<open>apply\<close> returns: with an exception, or with
  a program that has the same functions.
\<close>

theorem noop_elimination_terminates:
  "noop_elimination_converge self block =
     (case noop_elimination_block self block of
        Inl e \<Rightarrow> Inl e
      | Inr (block_changed, block') \<Rightarrow>
          if block_changed then noop_elimination_converge self block' else Inr block') \<and>
   (noop_elimination_block self block = Inr (True, b') \<longrightarrow>
      num_ops b' < num_ops block \<and> length (operations b') < length (operations block) \<and>
      (distinct (map op_name (operations block)) \<longrightarrow>
         Suc (length (operations b')) = length (operations block))) \<and>
   (noop_elimination_block self block = Inr (False, b') \<longrightarrow>
      noop_elimination_converge self block = Inr b' \<and>
      length (operations b') = length (operations block)) \<and>
   (noop_elimination_converge self block = Inr b'' \<longrightarrow> num_ops b'' \<le> num_ops block) \<and>
   ((\<exists>e. noop_elimination_apply self prog = Inl e) \<or>
    (\<exists>prog'. noop_elimination_apply self prog = Inr prog' \<and>
       map fst (prog_functions prog') = map fst (prog_functions prog)))"
proof (intro conjI impI)
  show "noop_elimination_converge self block =
     (case noop_elimination_block self block of
        Inl e \<Rightarrow> Inl e
      | Inr (block_changed, block') \<Rightarrow>
          if block_changed then noop_elimination_converge self block' else Inr block')"
    by (rule noop_elimination_converge_unfold)
next
  assume run: "noop_elimination_block self block = Inr (True, b')"
  show "num_ops b' < num_ops block" by (rule noop_elimination_block_num_ops(2) [OF run]) simp
  show "length (operations b') < length (operations block)"
    by (rule noop_elimination_block_keeps(3) [OF run]) simp
  assume "distinct (map op_name (operations block))"
  then show "Suc (length (operations b')) = length (operations block)"
    by (rule noop_elimination_block_keeps(6) [OF run]) simp
next
  assume run: "noop_elimination_block self block = Inr (False, b')"
  then show "noop_elimination_converge self block = Inr b'"
    by (subst noop_elimination_converge_unfold) simp
  have "map op_name (operations b') = map op_name (operations block)"
    by (rule noop_elimination_block_keeps(4) [OF run]) simp
  then show "length (operations b') = length (operations block)"
    by (rule map_eq_imp_length_eq)
next
  assume "noop_elimination_converge self block = Inr b''"
  then show "num_ops b'' \<le> num_ops block" by (rule converge_num_ops)
next
  show "(\<exists>e. noop_elimination_apply self prog = Inl e) \<or>
    (\<exists>prog'. noop_elimination_apply self prog = Inr prog' \<and>
       map fst (prog_functions prog') = map fst (prog_functions prog))"
  proof (cases "apply_functions self (prog_functions prog)")
    case (Inl e)
    then show ?thesis by (simp add: noop_elimination_apply_def set_ops_to_skip_def)
  next
    case (Inr fs)
    with apply_functions_names [OF Inr] show ?thesis
      by (simp add: noop_elimination_apply_def set_ops_to_skip_def)
  qed
qed

lemma example_program_apply:
  "noop_elimination_apply init_pass example_program = Inr example_program_done"
  by (simp add: noop_elimination_apply_def set_ops_to_skip_def example_program_def
      example_program_done_def example_block_converge)

text \<open>
  The theorem of C3 on the three-operation example (one rewrite, then a scan without
  change) and on the example with a nested block.
\<close>

theorem noop_elimination_terminates_witness:
  "noop_elimination_block init_pass example_block = Inr (True, example_block_done) \<and>
   num_ops example_block_done < num_ops example_block \<and>
   Suc (length (operations example_block_done)) = length (operations example_block) \<and>
   noop_elimination_block init_pass example_block_done = Inr (False, example_block_done) \<and>
   noop_elimination_converge init_pass example_block = Inr example_block_done \<and>
   noop_elimination_converge init_pass example_nested = Inr example_nested_done \<and>
   num_ops example_nested_done \<le> num_ops example_nested \<and>
   noop_elimination_apply init_pass example_program = Inr example_program_done"
proof -
  have d: "distinct (map op_name (operations example_block))"
    by (simp add: example_block_def op1_def op2_def op3_def)
  from d example_block_scan example_block_done_scan example_nested_converge
    example_program_apply
    noop_elimination_terminates [of init_pass example_block example_block_done
      example_block_done example_program]
    noop_elimination_terminates [of init_pass example_block_done example_block_done
      example_block_done example_program]
    noop_elimination_terminates [of init_pass example_nested example_block_done
      example_nested_done example_program]
  show ?thesis by simp
qed

text \<open>
  Claim C4. When \<open>apply\<close> has returned a program, \<open>apply\<close> on that program returns the
  same program, and on each of its functions a scan reports no change and leaves the
  function as it is.
\<close>

theorem noop_elimination_idempotent:
  "noop_elimination_apply self prog = Inr prog' \<Longrightarrow>
     noop_elimination_apply self prog' = Inr prog' \<and>
     (\<forall>(name, f) \<in> set (prog_functions prog').
        noop_elimination_block self f = Inr (False, f) \<and>
        noop_elimination_converge self f = Inr f)"
proof -
  assume run: "noop_elimination_apply self prog = Inr prog'"
  then obtain fs where fs: "apply_functions self (prog_functions prog) = Inr fs"
    and prog': "prog' = prog\<lparr>prog_functions := fs\<rparr>"
    by (auto simp: noop_elimination_apply_def set_ops_to_skip_def split: sum.splits)
  from apply_functions_again [OF fs] have
    again: "apply_functions self fs = Inr fs" and
    fixed: "\<forall>(name, f) \<in> set fs. noop_elimination_block self f = Inr (False, f)"
    by simp_all
  have "noop_elimination_apply self prog' = Inr prog'"
    by (simp add: noop_elimination_apply_def set_ops_to_skip_def prog' again)
  moreover have "\<forall>(name, f) \<in> set (prog_functions prog').
        noop_elimination_block self f = Inr (False, f) \<and>
        noop_elimination_converge self f = Inr f"
  proof (clarify, intro conjI)
    fix name f
    assume "(name, f) \<in> set (prog_functions prog')"
    with fixed prog' show b: "noop_elimination_block self f = Inr (False, f)" by auto
    then show "noop_elimination_converge self f = Inr f"
      by (subst noop_elimination_converge_unfold) simp
  qed
  ultimately show ?thesis by simp
qed

text \<open>
  The theorem of C4 on the program whose function is the three-operation example.
\<close>

theorem noop_elimination_idempotent_witness:
  "noop_elimination_apply init_pass example_program = Inr example_program_done \<and>
   noop_elimination_apply init_pass example_program_done = Inr example_program_done \<and>
   noop_elimination_block init_pass example_block_done = Inr (False, example_block_done)"
  using noop_elimination_idempotent [OF example_program_apply]
  by (simp add: example_program_apply example_program_done_def)


end
